theory Spec2Isabelle
  imports Main
begin

section \<open>The IR as the engine sees it\<close>

text \<open>
  The engine of \<^verbatim>\<open>LLVMPointsToSet.cpp\<close> works on \<^verbatim>\<open>const llvm::Value *\<close>: it
  compares and hashes the pointers and asks the IR for the kind, the type, the operands
  and the users of a value. A value is therefore its identity (a number), and everything
  the engine reads from the IR is a field of the view \<open>ir_view\<close> or of the
  instruction, function and module it iterates over.
\<close>

type_synonym val = nat

datatype AliasResult = NoAlias | MayAlias | PartialAlias | MustAlias

text \<open>
  The ways an operation leaves the defined behaviour of the program: a failed
  \<^verbatim>\<open>assert\<close>, a read of \<^verbatim>\<open>std::vector::operator[]\<close> beyond the vector's size
  (undefined behaviour: the source has no range check), and a dereference of the null
  \<^verbatim>\<open>shared_ptr\<close> that \<^verbatim>\<open>operator[]\<close> of the map makes for a missing key.
\<close>

datatype error = AssertionFailed | VectorIndexOutOfRange | NullSetDereference

text \<open>
  An instruction, as far as the engine distinguishes them: a store with its value and
  pointer operand, a call or invoke (\<^verbatim>\<open>llvm::CallBase\<close>) with its called operand and
  its data operands, and every other instruction with its operands.
\<close>

datatype inst_kind =
    StoreInst val val
  | CallBase val "val list"
  | OtherInst "val list"

datatype instruction = Instruction (ival: val) (ikind: inst_kind)

record llvm_function =
  fval :: val
  args :: "val list"
  insts :: "instruction list"
  isDeclaration :: bool
  parentGlobals :: "val list"

record llvm_module =
  moduleGlobals :: "val list"
  moduleFunctions :: "llvm_function list"

text \<open>
  A user of a global object: an instruction, with \<^verbatim>\<open>getParent()\<close> and
  \<^verbatim>\<open>getFunction()\<close> (\<open>None\<close>: no parent block; \<open>Some None\<close>: a block outside
  every function), or a user that is no instruction.
\<close>

datatype user =
    InstUser instruction "llvm_function option option"
  | OtherUser val

text \<open>
  \<open>isInterestingPointer\<close> and \<open>retrieveFunction\<close> are declared in headers that are
  not part of the sources; the engine only calls them, and they are fields of the view.
  \<open>constantExprBitCast v = Some r\<close> says that \<open>v\<close> is a \<^verbatim>\<open>ConstantExpr\<close> whose
  instruction form is a \<^verbatim>\<open>BitCastInst\<close> with operand 0 equal to \<open>r\<close>.
  \<open>aaAlias F p q\<close> is the answer of \<^verbatim>\<open>PTA->getAAResults(F)->alias(p, size p, q, size q)\<close>:
  the two sizes are functions of the types of \<open>p\<close> and \<open>q\<close> and of the data layout, so
  they are part of the oracle here.
\<close>

record ir_view =
  getAllModules :: "llvm_module list"
  isPointerTy :: "val \<Rightarrow> bool"
  isInterestingPointer :: "val \<Rightarrow> bool"
  isFunction :: "val \<Rightarrow> bool"
  isGlobalObject :: "val \<Rightarrow> bool"
  users :: "val \<Rightarrow> user list"
  constantExprBitCast :: "val \<Rightarrow> val option"
  retrieveFunction :: "val \<Rightarrow> llvm_function option"
  aaAlias :: "val \<Rightarrow> val \<Rightarrow> val \<Rightarrow> AliasResult"

section \<open>The engine's state\<close>

text \<open>
  \<^verbatim>\<open>PointsToSets\<close> maps a value to a \<^verbatim>\<open>shared_ptr\<close> to an \<^verbatim>\<open>unordered_set\<close>.
  Several keys share one set object, and the code mutates the object through any of
  them, so the set objects live in a store \<open>Heap\<close> indexed by address, and the map
  holds addresses. \<open>NextAddr\<close> is the address \<^verbatim>\<open>make_shared\<close> returns next.
  \<^verbatim>\<open>AnalyzedFunctions\<close> holds function pointers; \<open>None\<close> is the null pointer, which
  \<^verbatim>\<open>load\<close> can insert.
\<close>

record LLVMPointsToSet =
  PointsToSets :: "val \<rightharpoonup> nat"
  Heap :: "nat \<Rightarrow> val set"
  AnalyzedFunctions :: "val option set"
  NextAddr :: nat

definition emptyEngine :: LLVMPointsToSet where
  "emptyEngine =
     \<lparr>PointsToSets = Map.empty, Heap = (\<lambda>_. {}), AnalyzedFunctions = {}, NextAddr = 0\<rparr>"

definition make_shared :: "val set \<Rightarrow> LLVMPointsToSet \<Rightarrow> nat \<times> LLVMPointsToSet" where
  "make_shared S s =
     (NextAddr s, s\<lparr>Heap := (Heap s)(NextAddr s := S), NextAddr := Suc (NextAddr s)\<rparr>)"

text \<open>Sequencing of steps that may leave the defined behaviour.\<close>

definition andThen :: "error + 'a \<Rightarrow> ('a \<Rightarrow> error + 'b) \<Rightarrow> error + 'b" where
  "andThen r f = (case r of Inl e \<Rightarrow> Inl e | Inr x \<Rightarrow> f x)"

fun foldE :: "('a \<Rightarrow> 'b \<Rightarrow> error + 'b) \<Rightarrow> 'a list \<Rightarrow> 'b \<Rightarrow> error + 'b" where
  "foldE f [] s = Inr s"
| "foldE f (x # xs) s = (case f x s of Inl e \<Rightarrow> Inl e | Inr s' \<Rightarrow> foldE f xs s')"

section \<open>The union-find store\<close>

definition addSingletonPointsToSet :: "val \<Rightarrow> LLVMPointsToSet \<Rightarrow> LLVMPointsToSet" where
  "addSingletonPointsToSet V s =
     (case PointsToSets s V of
        Some h \<Rightarrow> s\<lparr>Heap := (Heap s)(h := insert V (Heap s h))\<rparr>
      | None \<Rightarrow>
          (case make_shared {V} s of
             (h, s1) \<Rightarrow> s1\<lparr>PointsToSets := (PointsToSets s1)(V \<mapsto> h)\<rparr>))"

text \<open>
  The tail of \<^verbatim>\<open>mergePointsToSets\<close> (lines 249 to 256), once the smaller and the
  larger set are chosen: the insertion into the larger set, the loop that rebinds every
  element of the smaller set (\<^verbatim>\<open>operator[]\<close> binds an element that was no key yet),
  and the \<^verbatim>\<open>clear()\<close> of the smaller set. The loop writes the same handle under
  every element, so its result does not depend on the order of the iteration.
\<close>

definition absorb :: "nat \<Rightarrow> nat \<Rightarrow> LLVMPointsToSet \<Rightarrow> LLVMPointsToSet" where
  "absorb SmallerSet LargerSet s =
     (let H1 = (Heap s)(LargerSet := Heap s LargerSet \<union> Heap s SmallerSet);
          M = (\<lambda>Ptr. if Ptr \<in> H1 SmallerSet then Some LargerSet else PointsToSets s Ptr)
      in s\<lparr>PointsToSets := M, Heap := H1(SmallerSet := {})\<rparr>)"

text \<open>
  \<^verbatim>\<open>mergePointsToSets\<close>: the two assertions, the two early returns (the same value;
  \<open>V2\<close> already a member of the set of \<open>V1\<close>), and the choice of the smaller set,
  which is the set of \<open>V1\<close> when the sizes are equal.
\<close>

definition mergePointsToSets :: "val \<Rightarrow> val \<Rightarrow> LLVMPointsToSet \<Rightarrow> error + LLVMPointsToSet" where
  "mergePointsToSets V1 V2 s =
     (case PointsToSets s V1 of
        None \<Rightarrow> Inl AssertionFailed
      | Some V1Set \<Rightarrow>
          (case PointsToSets s V2 of
             None \<Rightarrow> Inl AssertionFailed
           | Some V2Set \<Rightarrow>
               if V1 = V2 then Inr s
               else if V2 \<in> Heap s V1Set then Inr s
               else if card (Heap s V1Set) \<le> card (Heap s V2Set)
                    then Inr (absorb V1Set V2Set s)
                    else Inr (absorb V2Set V1Set s)))"

section \<open>The per-function analyzer\<close>

text \<open>\<^verbatim>\<open>llvm::SetVector::insert\<close>: insertion order, no duplicates.\<close>

definition sv_insert :: "val \<Rightarrow> val list \<Rightarrow> val list" where
  "sv_insert x xs = (if x \<in> set xs then xs else xs @ [x])"

definition insertInteresting :: "ir_view \<Rightarrow> val \<Rightarrow> val list \<Rightarrow> val list" where
  "insertInteresting ir x xs = (if isInterestingPointer ir x then sv_insert x xs else xs)"

text \<open>The two store rules of \<^verbatim>\<open>computeFunctionsPointsToSet\<close> (lines 349 to 371).\<close>

definition storeRules :: "ir_view \<Rightarrow> val \<Rightarrow> val \<Rightarrow> LLVMPointsToSet \<Rightarrow> error + LLVMPointsToSet" where
  "storeRules ir SVO SPO s =
     (if isPointerTy ir SVO then
        andThen
          (if isFunction ir SVO
           then mergePointsToSets SVO SPO
                  (addSingletonPointsToSet SPO (addSingletonPointsToSet SVO s))
           else Inr s)
          (\<lambda>s1. case constantExprBitCast ir SVO of
                   None \<Rightarrow> Inr s1
                 | Some RHS \<Rightarrow>
                     andThen
                       (mergePointsToSets RHS SPO
                          (addSingletonPointsToSet SPO
                             (addSingletonPointsToSet SVO (addSingletonPointsToSet RHS s1))))
                       (mergePointsToSets SVO SPO))
      else Inr s)"

text \<open>One round of the loop over the instructions of the function (lines 340 to 397).\<close>

definition visitInstruction ::
  "ir_view \<Rightarrow> instruction \<Rightarrow> val list \<times> LLVMPointsToSet \<Rightarrow> error + (val list \<times> LLVMPointsToSet)" where
  "visitInstruction ir I st =
     (case st of (Pointers, s) \<Rightarrow>
        let P1 = (if isPointerTy ir (ival I) then sv_insert (ival I) Pointers else Pointers)
        in andThen
             (case ikind I of StoreInst SVO SPO \<Rightarrow> storeRules ir SVO SPO s | _ \<Rightarrow> Inr s)
             (\<lambda>s1. Inr
                (case ikind I of
                   CallBase Callee DataOps \<Rightarrow>
                     fold (insertInteresting ir) DataOps
                       (if \<not> isFunction ir Callee \<and> isInterestingPointer ir Callee
                        then sv_insert Callee P1 else P1)
                 | StoreInst SVO SPO \<Rightarrow> fold (insertInteresting ir) [SVO, SPO] P1
                 | OtherInst Ops \<Rightarrow> fold (insertInteresting ir) Ops P1,
                 s1)))"

text \<open>
  The pairwise disambiguation (lines 419 to 446): the outer loop takes \<open>I1\<close> from the
  pointers in order, the inner loop every \<open>I2\<close> before \<open>I1\<close>. The loop casts the
  type of each pointer to \<^verbatim>\<open>llvm::PointerType\<close> to compute the size it passes to the
  oracle; types are not part of the model beyond \<open>isPointerTy\<close>, and the cast and the
  size are part of the oracle's answer \<open>aaAlias\<close>.
\<close>

definition disambiguatePair ::
  "ir_view \<Rightarrow> val \<Rightarrow> val \<Rightarrow> val \<Rightarrow> LLVMPointsToSet \<Rightarrow> error + LLVMPointsToSet" where
  "disambiguatePair ir F I1 I2 s =
     (case aaAlias ir F I1 I2 of
        NoAlias \<Rightarrow> Inr s
      | MayAlias \<Rightarrow> mergePointsToSets I1 I2 s
      | PartialAlias \<Rightarrow> mergePointsToSets I1 I2 s
      | MustAlias \<Rightarrow> mergePointsToSets I1 I2 s)"

fun disambiguate ::
  "ir_view \<Rightarrow> val \<Rightarrow> val list \<Rightarrow> val list \<Rightarrow> LLVMPointsToSet \<Rightarrow> error + LLVMPointsToSet" where
  "disambiguate ir F earlier [] s = Inr s"
| "disambiguate ir F earlier (I1 # rest) s =
     (case foldE (disambiguatePair ir F I1) earlier s of
        Inl e \<Rightarrow> Inl e
      | Inr s' \<Rightarrow> disambiguate ir F (earlier @ [I1]) rest s')"

text \<open>
  \<^verbatim>\<open>computeFunctionsPointsToSet\<close>: the two early returns, the mark in
  \<^verbatim>\<open>AnalyzedFunctions\<close> before any work, the pointer arguments, the loop over the
  instructions, the globals of the module, the singletons, and the pairwise loop. The sets
  \<^verbatim>\<open>Calls\<close>, \<^verbatim>\<open>Loads\<close> and \<^verbatim>\<open>Stores\<close> are filled and never read, the
  warning for more than 100 pointers only logs, and \<^verbatim>\<open>PTA->erase(F)\<close> releases the
  oracle: none of them changes the engine.
\<close>

definition computeFunctionsPointsToSet ::
  "ir_view \<Rightarrow> llvm_function option \<Rightarrow> LLVMPointsToSet \<Rightarrow> error + LLVMPointsToSet" where
  "computeFunctionsPointsToSet ir Fp s =
     (case Fp of
        None \<Rightarrow> Inr s
      | Some F \<Rightarrow>
          if Some (fval F) \<in> AnalyzedFunctions s then Inr s
          else
            let s0 = s\<lparr>AnalyzedFunctions := insert (Some (fval F)) (AnalyzedFunctions s)\<rparr>;
                P0 = fold (\<lambda>A P. if isPointerTy ir A then sv_insert A P else P) (args F) []
            in andThen (foldE (visitInstruction ir) (insts F) (P0, s0))
                 (\<lambda>st. case st of (P1, s1) \<Rightarrow>
                    let Pointers = fold sv_insert (parentGlobals F) P1
                    in disambiguate ir (fval F) [] Pointers
                         (fold addSingletonPointsToSet Pointers s1)))"

section \<open>The per-value driver and the queries\<close>

text \<open>
  One round of the loop over the users of a global object in
  \<^verbatim>\<open>computeValuesPointsToSet\<close> (lines 187 to 207). \<^verbatim>\<open>mergePointsToSets\<close> is
  called here on values that this function has not bound itself, so its assertions are
  branches.
\<close>

definition visitUser ::
  "ir_view \<Rightarrow> val \<Rightarrow> user \<Rightarrow> LLVMPointsToSet \<Rightarrow> error + LLVMPointsToSet" where
  "visitUser ir G U s =
     (case U of
        OtherUser _ \<Rightarrow> Inr s
      | InstUser Inst parent \<Rightarrow>
          (case parent of
             None \<Rightarrow> Inr s
           | Some Fp \<Rightarrow>
               andThen (computeFunctionsPointsToSet ir Fp s)
                 (\<lambda>s1. if \<not> isFunction ir G \<and> isInterestingPointer ir (ival Inst)
                        then mergePointsToSets (ival Inst) G s1
                        else (case ikind Inst of
                                StoreInst SVO SPO \<Rightarrow>
                                  if isInterestingPointer ir SVO
                                  then mergePointsToSets SVO SPO s1 else Inr s1
                              | _ \<Rightarrow> Inr s1))))"

definition computeValuesPointsToSet ::
  "ir_view \<Rightarrow> val \<Rightarrow> LLVMPointsToSet \<Rightarrow> error + LLVMPointsToSet" where
  "computeValuesPointsToSet ir V s =
     (if \<not> isInterestingPointer ir V then Inr s
      else
        let s1 = addSingletonPointsToSet V s
        in if isGlobalObject ir V then foldE (visitUser ir V) (users ir V) s1
           else computeFunctionsPointsToSet ir (retrieveFunction ir V) s1)"


text \<open>
  \<^verbatim>\<open>getPointsToSet\<close> returns a handle: the address of the set, together with the
  state, in which a set made by \<^verbatim>\<open>make_shared\<close> is allocated.
\<close>

definition getPointsToSet ::
  "ir_view \<Rightarrow> val \<Rightarrow> LLVMPointsToSet \<Rightarrow> error + (nat \<times> LLVMPointsToSet)" where
  "getPointsToSet ir V s =
     (if \<not> isInterestingPointer ir V then Inr (make_shared {} s)
      else
        andThen (computeValuesPointsToSet ir V s)
          (\<lambda>s1. case PointsToSets s1 V of
                   None \<Rightarrow> Inr (make_shared {} s1)
                 | Some h \<Rightarrow> Inr (h, s1)))"

definition introduceAlias ::
  "ir_view \<Rightarrow> val \<Rightarrow> val \<Rightarrow> LLVMPointsToSet \<Rightarrow> error + LLVMPointsToSet" where
  "introduceAlias ir V1 V2 s =
     (if \<not> isInterestingPointer ir V1 \<or> \<not> isInterestingPointer ir V2 then Inr s
      else
        andThen (computeValuesPointsToSet ir V1 s)
          (\<lambda>s1. andThen (computeValuesPointsToSet ir V2 s1) (mergePointsToSets V1 V2)))"

section \<open>Construction\<close>

text \<open>
  The constructor of lines 62 to 84: for every module, the driver on every global and on
  every function, and without lazy evaluation the analyzer on every function that is not
  a declaration.
\<close>

definition constructModule ::
  "ir_view \<Rightarrow> bool \<Rightarrow> llvm_module \<Rightarrow> LLVMPointsToSet \<Rightarrow> error + LLVMPointsToSet" where
  "constructModule ir UseLazyEvaluation M s =
     andThen (foldE (computeValuesPointsToSet ir) (moduleGlobals M) s)
       (\<lambda>s1. andThen (foldE (computeValuesPointsToSet ir) (map fval (moduleFunctions M)) s1)
          (\<lambda>s2. if \<not> UseLazyEvaluation
                 then foldE (\<lambda>F t. if \<not> isDeclaration F
                                     then computeFunctionsPointsToSet ir (Some F) t else Inr t)
                        (moduleFunctions M) s2
                 else Inr s2))"

definition newLLVMPointsToSet :: "ir_view \<Rightarrow> bool \<Rightarrow> error + LLVMPointsToSet" where
  "newLLVMPointsToSet ir UseLazyEvaluation =
     foldE (constructModule ir UseLazyEvaluation) (getAllModules ir) emptyEngine"

section \<open>Merging two engines\<close>

text \<open>
  \<^verbatim>\<open>mergeWith\<close> and \<^verbatim>\<open>save\<close> iterate over unordered containers. The order of
  such an iteration is not fixed by the container's contents, so it is a parameter: the
  list in which the elements of a set of values, and of a set of function pointers, are
  visited.
\<close>

record iteration_order =
  valuesOf :: "val set \<Rightarrow> val list"
  functionsOf :: "val option set \<Rightarrow> val option list"

text \<open>The search of lines 554 to 567: the set of the first element that is a key here.\<close>

fun firstKnown :: "(val \<rightharpoonup> nat) \<Rightarrow> val list \<Rightarrow> nat option" where
  "firstKnown m [] = None"
| "firstKnown m (ElemPtr # rest) =
     (case m ElemPtr of Some h \<Rightarrow> Some h | None \<Rightarrow> firstKnown m rest)"

text \<open>
  One round of the loop of \<^verbatim>\<open>mergeWith\<close> over the map of the other engine.
  \<^verbatim>\<open>unordered_map::insert\<close> binds a key only when the key has no binding yet.
\<close>

definition mergeWithEntry ::
  "iteration_order \<Rightarrow> LLVMPointsToSet \<Rightarrow> val \<Rightarrow> LLVMPointsToSet \<Rightarrow> LLVMPointsToSet" where
  "mergeWithEntry ord Other KeyPtr s =
     (case PointsToSets Other KeyPtr of
        None \<Rightarrow> s
      | Some hO \<Rightarrow>
          let Set = Heap Other hO
          in (case firstKnown (PointsToSets s) (valuesOf ord Set) of
                Some h \<Rightarrow>
                  s\<lparr>Heap := (Heap s)(h := Heap s h \<union> Set),
                    PointsToSets :=
                      (\<lambda>ElemPtr. if ElemPtr \<in> Set \<and> PointsToSets s ElemPtr = None then Some h
                                  else PointsToSets s ElemPtr)\<rparr>
              | None \<Rightarrow>
                  (case make_shared Set s of
                     (h, s1) \<Rightarrow>
                       if PointsToSets s1 KeyPtr = None
                       then s1\<lparr>PointsToSets := (PointsToSets s1)(KeyPtr \<mapsto> h)\<rparr>
                       else s1)))"

definition mergeWith ::
  "iteration_order \<Rightarrow> LLVMPointsToSet \<Rightarrow> LLVMPointsToSet \<Rightarrow> LLVMPointsToSet" where
  "mergeWith ord Other s =
     fold (mergeWithEntry ord Other) (valuesOf ord (dom (PointsToSets Other)))
       (s\<lparr>AnalyzedFunctions := AnalyzedFunctions s \<union> AnalyzedFunctions Other\<rparr>)"

section \<open>Serialization\<close>

text \<open>
  \<^verbatim>\<open>traverseIRDB\<close> calls its argument on the values of the IR in a fixed order; the
  list of these values, in that order, stands for the traversal.
\<close>

definition traverseIRDB :: "ir_view \<Rightarrow> val list" where
  "traverseIRDB ir =
     concat (map (\<lambda>M. moduleGlobals M @
                       concat (map (\<lambda>F. fval F # filter (isPointerTy ir) (args F) @ map ival (insts F))
                                 (moduleFunctions M)))
               (getAllModules ir))"

text \<open>
  The saver's \<^verbatim>\<open>ValueToIdMap\<close>: the counter \<^verbatim>\<open>NextID\<close> is an \<^verbatim>\<open>unsigned int\<close>.
  \<^verbatim>\<open>ValueToIdMap[V]\<close> for a value the traversal did not visit makes an entry with the
  identifier 0.
\<close>

definition assignIds :: "val list \<Rightarrow> (val \<rightharpoonup> nat)" where
  "assignIds Vs =
     fold (\<lambda>p m. case p of (V, NextID) \<Rightarrow> m(V \<mapsto> NextID mod 2 ^ 32)) (zip Vs [0..<length Vs]) Map.empty"

definition idOf :: "(val \<rightharpoonup> nat) \<Rightarrow> val \<Rightarrow> nat" where
  "idOf ids V = (case ids V of Some i \<Rightarrow> i | None \<Rightarrow> 0)"

text \<open>
  The file, after the \<^verbatim>\<open>[ValueIds]\<close> segment that the loader skips: the lines between
  the markers \<^verbatim>\<open>[AnalyzedFunctions]\<close> and \<^verbatim>\<open>[PointsToSets]\<close>, and the lines after
  the second marker, each line the list of the identifiers written on it. The decimal
  text of an identifier, which the saver writes with \<^verbatim>\<open><<\<close> and the loader reads back
  with \<^verbatim>\<open>getline\<close> and \<^verbatim>\<open>atol\<close>, is not modelled.
\<close>

record pts_file =
  AnalyzedFunctionsLines :: "nat list list"
  PointsToSetsLines :: "nat list list"

fun savePointsToSets ::
  "iteration_order \<Rightarrow> (val \<rightharpoonup> nat) \<Rightarrow> LLVMPointsToSet \<Rightarrow> val list \<Rightarrow> nat set \<Rightarrow> nat list list" where
  "savePointsToSets ord ids s [] Printed = []"
| "savePointsToSets ord ids s (K # Ks) Printed =
     (case PointsToSets s K of
        None \<Rightarrow> savePointsToSets ord ids s Ks Printed
      | Some S \<Rightarrow>
          if S \<in> Printed then savePointsToSets ord ids s Ks Printed
          else map (idOf ids) (valuesOf ord (Heap s S))
                 # savePointsToSets ord ids s Ks (insert S Printed))"

definition save :: "iteration_order \<Rightarrow> ir_view \<Rightarrow> LLVMPointsToSet \<Rightarrow> pts_file" where
  "save ord ir s =
     (let ids = assignIds (traverseIRDB ir)
      in \<lparr>AnalyzedFunctionsLines =
            [map (\<lambda>F. case F of None \<Rightarrow> 0 | Some f \<Rightarrow> idOf ids f)
               (functionsOf ord (AnalyzedFunctions s))],
          PointsToSetsLines =
            savePointsToSets ord ids s (valuesOf ord (dom (PointsToSets s))) {}\<rparr>)"

text \<open>
  The loader indexes the vector \<^verbatim>\<open>IdToValueMap\<close> with the identifier it read, with no
  check against the size of the vector.
\<close>

definition lookupId :: "val list \<Rightarrow> nat \<Rightarrow> error + val" where
  "lookupId IdToValueMap ID =
     (if ID < length IdToValueMap then Inr (IdToValueMap ! ID) else Inl VectorIndexOutOfRange)"

definition loadAnalyzedCell ::
  "ir_view \<Rightarrow> val list \<Rightarrow> nat \<Rightarrow> LLVMPointsToSet \<Rightarrow> error + LLVMPointsToSet" where
  "loadAnalyzedCell ir IdToValueMap ID s =
     andThen (lookupId IdToValueMap ID)
       (\<lambda>V. Inr (s\<lparr>AnalyzedFunctions :=
                      insert (if isFunction ir V then Some V else None) (AnalyzedFunctions s)\<rparr>))"

definition loadSetCell ::
  "val list \<Rightarrow> nat \<Rightarrow> nat \<Rightarrow> LLVMPointsToSet \<Rightarrow> error + LLVMPointsToSet" where
  "loadSetCell IdToValueMap PointersSet ID s =
     andThen (lookupId IdToValueMap ID)
       (\<lambda>V. Inr (s\<lparr>Heap := (Heap s)(PointersSet := insert V (Heap s PointersSet)),
                    PointsToSets := (PointsToSets s)(V \<mapsto> PointersSet)\<rparr>))"

definition loadSetLine ::
  "val list \<Rightarrow> nat list \<Rightarrow> LLVMPointsToSet \<Rightarrow> error + LLVMPointsToSet" where
  "loadSetLine IdToValueMap Line s =
     (case make_shared {} s of
        (PointersSet, s1) \<Rightarrow> foldE (loadSetCell IdToValueMap PointersSet) Line s1)"

definition load :: "ir_view \<Rightarrow> pts_file \<Rightarrow> LLVMPointsToSet \<Rightarrow> error + LLVMPointsToSet" where
  "load ir file s =
     (let IdToValueMap = traverseIRDB ir
      in andThen (foldE (loadAnalyzedCell ir IdToValueMap) (concat (AnalyzedFunctionsLines file)) s)
           (foldE (loadSetLine IdToValueMap) (PointsToSetsLines file)))"

section \<open>The invariants of the store\<close>

text \<open>
  Invariants 1 and 2 of the data model, and the discipline of the allocator: every handle
  in the map was returned by \<^verbatim>\<open>make_shared\<close>.
\<close>

definition reflexive :: "LLVMPointsToSet \<Rightarrow> bool" where
  "reflexive s = (\<forall>V h. PointsToSets s V = Some h \<longrightarrow> V \<in> Heap s h)"

definition canonical :: "LLVMPointsToSet \<Rightarrow> bool" where
  "canonical s =
     (\<forall>V h W. PointsToSets s V = Some h \<longrightarrow> W \<in> Heap s h \<longrightarrow> PointsToSets s W = Some h)"

definition allocated :: "LLVMPointsToSet \<Rightarrow> bool" where
  "allocated s = (\<forall>V h. PointsToSets s V = Some h \<longrightarrow> h < NextAddr s)"

definition invariants :: "LLVMPointsToSet \<Rightarrow> bool" where
  "invariants s = (reflexive s \<and> canonical s \<and> allocated s)"

text \<open>
  What a sequence of \<^verbatim>\<open>addSingletonPointsToSet\<close> and successful
  \<^verbatim>\<open>mergePointsToSets\<close> calls can make of a state.
\<close>

inductive grows :: "LLVMPointsToSet \<Rightarrow> LLVMPointsToSet \<Rightarrow> bool" where
  same: "grows s s"
| singleton: "grows s t \<Longrightarrow> grows s (addSingletonPointsToSet V t)"
| merged: "grows s t \<Longrightarrow> mergePointsToSets V1 V2 t = Inr u \<Longrightarrow> grows s u"

text \<open>
  The functions the driver hands to the analyzer: for a user of a global object, the
  function of the instruction; for a value, the functions of its users when it is a global
  object, and its own function otherwise; for a module at construction, what the driver
  reaches from its globals and functions, and without lazy evaluation every function that
  is not a declaration.
\<close>

definition hostOf :: "user \<Rightarrow> val option set" where
  "hostOf U = (case U of InstUser I (Some (Some F)) \<Rightarrow> {Some (fval F)} | _ \<Rightarrow> {})"

definition analyzedFor :: "ir_view \<Rightarrow> val \<Rightarrow> val option set" where
  "analyzedFor ir V =
     (if \<not> isInterestingPointer ir V then {}
      else if isGlobalObject ir V then \<Union> (hostOf ` set (users ir V))
      else (case retrieveFunction ir V of None \<Rightarrow> {} | Some F \<Rightarrow> {Some (fval F)}))"

definition analyzedAtConstruction :: "ir_view \<Rightarrow> bool \<Rightarrow> llvm_module \<Rightarrow> val option set" where
  "analyzedAtConstruction ir UseLazyEvaluation M =
     \<Union> (analyzedFor ir ` (set (moduleGlobals M) \<union> fval ` set (moduleFunctions M)))
     \<union> (if UseLazyEvaluation then {}
        else {Some (fval F) | F. F \<in> set (moduleFunctions M) \<and> \<not> isDeclaration F})"

text \<open>
  What the driver relies on, beyond its own checks, when it merges without a lookup that
  can fail. \<open>wellFormedIR\<close>: function objects are told apart by their identity; an
  interesting pointer has a pointer type; an instruction that uses a global object and
  has a parent block lies in a function, as one of its instructions; and the pointer
  operand of a store of an interesting value is interesting (the comment at lines 199 and
  200 of the source says so). \<open>analyzedBound\<close>: the functions marked as analyzed have
  had their pointers bound, which is what the analysis of a function leaves; \<open>boundBy\<close>
  are the values that the analysis binds for one instruction and that the driver then
  merges.
\<close>

definition knownFunctions :: "ir_view \<Rightarrow> llvm_function set" where
  "knownFunctions ir =
     {F. (\<exists>G I. InstUser I (Some (Some F)) \<in> set (users ir G))
         \<or> (\<exists>V. retrieveFunction ir V = Some F)
         \<or> (\<exists>M \<in> set (getAllModules ir). F \<in> set (moduleFunctions M))}"

definition boundBy :: "ir_view \<Rightarrow> instruction \<Rightarrow> val set" where
  "boundBy ir I =
     (if isPointerTy ir (ival I) then {ival I} else {})
     \<union> (case ikind I of
          StoreInst SVO SPO \<Rightarrow> {V. (V = SVO \<or> V = SPO) \<and> isInterestingPointer ir V}
        | _ \<Rightarrow> {})"

definition analyzedBound :: "ir_view \<Rightarrow> LLVMPointsToSet \<Rightarrow> bool" where
  "analyzedBound ir s =
     (\<forall>F \<in> knownFunctions ir. Some (fval F) \<in> AnalyzedFunctions s \<longrightarrow>
        \<Union> (boundBy ir ` set (insts F)) \<subseteq> dom (PointsToSets s))"

definition wellFormedIR :: "ir_view \<Rightarrow> bool" where
  "wellFormedIR ir =
     (inj_on fval (knownFunctions ir) \<and>
      (\<forall>V. isInterestingPointer ir V \<longrightarrow> isPointerTy ir V) \<and>
      (\<forall>G I p. InstUser I p \<in> set (users ir G) \<longrightarrow>
         (p = None \<or> (\<exists>F. p = Some (Some F) \<and> I \<in> set (insts F))) \<and>
         (\<forall>SVO SPO. ikind I = StoreInst SVO SPO \<longrightarrow> isInterestingPointer ir SVO \<longrightarrow>
            isInterestingPointer ir SPO)))"

section \<open>Example inputs\<close>

text \<open>A view in which every value but 0 (the null pointer) is an interesting pointer and no
  value belongs to a function.\<close>

definition looseValues :: ir_view where
  "looseValues =
     \<lparr>getAllModules = [], isPointerTy = (\<lambda>_. True), isInterestingPointer = (\<lambda>v. v \<noteq> 0),
      isFunction = (\<lambda>_. False), isGlobalObject = (\<lambda>_. False), users = (\<lambda>_. []),
      constantExprBitCast = (\<lambda>_. None), retrieveFunction = (\<lambda>_. None),
      aaAlias = (\<lambda>_ _ _. NoAlias)\<rparr>"

text \<open>The store after \<^verbatim>\<open>addSingletonPointsToSet\<close> of the values 1 and 2.\<close>

definition twoSingletons :: LLVMPointsToSet where
  "twoSingletons = addSingletonPointsToSet 2 (addSingletonPointsToSet 1 emptyEngine)"

text \<open>An iteration order: the values from 0 to 9 in ascending order.\<close>

definition ascending :: iteration_order where
  "ascending =
     \<lparr>valuesOf = (\<lambda>S. filter (\<lambda>v. v \<in> S) [0, 1, 2, 3, 4, 5, 6, 7, 8, 9]),
      functionsOf = (\<lambda>S. filter (\<lambda>f. f \<in> S) (None # map Some [0, 1, 2, 3, 4, 5, 6, 7, 8, 9]))\<rparr>"

text \<open>
  A module with one function \<^verbatim>\<open>@main\<close> (value 4) of two instructions,
  \<^verbatim>\<open>%p = alloca i32\<close> (value 5) and \<^verbatim>\<open>%q = alloca i32\<close> (value 6), under an
  oracle that gives one answer for every pair; the engine after the analysis of
  \<^verbatim>\<open>@main\<close> when the answer is \<^verbatim>\<open>NoAlias\<close>, and when it is \<^verbatim>\<open>MayAlias\<close>.
\<close>

definition allocasMain :: llvm_function where
  "allocasMain =
     \<lparr>fval = 4, args = [], insts = [Instruction 5 (OtherInst []), Instruction 6 (OtherInst [])],
      isDeclaration = False, parentGlobals = []\<rparr>"

definition allocasIR :: "AliasResult \<Rightarrow> ir_view" where
  "allocasIR r =
     \<lparr>getAllModules = [\<lparr>moduleGlobals = [], moduleFunctions = [allocasMain]\<rparr>],
      isPointerTy = (\<lambda>v. v \<in> {0, 4, 5, 6}),
      isInterestingPointer = (\<lambda>v. v \<in> {4, 5, 6}),
      isFunction = (\<lambda>v. v = 4),
      isGlobalObject = (\<lambda>v. v = 4),
      users = (\<lambda>v. []),
      constantExprBitCast = (\<lambda>v. None),
      retrieveFunction = (\<lambda>v. if v \<in> {5, 6} then Some allocasMain else None),
      aaAlias = (\<lambda>_ _ _. r)\<rparr>"

definition separateAllocas :: LLVMPointsToSet where
  "separateAllocas =
     \<lparr>PointsToSets = [5 \<mapsto> 0, 6 \<mapsto> 1], Heap = (\<lambda>_. {})(0 := {5}, 1 := {6}),
      AnalyzedFunctions = {Some 4}, NextAddr = 2\<rparr>"

definition mergedAllocas :: LLVMPointsToSet where
  "mergedAllocas =
     \<lparr>PointsToSets = [5 \<mapsto> 0, 6 \<mapsto> 0], Heap = (\<lambda>_. {})(0 := {5, 6}),
      AnalyzedFunctions = {Some 4}, NextAddr = 2\<rparr>"

text \<open>
  A module with a declaration \<^verbatim>\<open>@foo\<close> (value 3) and a function \<^verbatim>\<open>@main\<close>
  (value 4) whose only instruction is \<^verbatim>\<open>call void @foo()\<close> (value 7), and the engine
  the constructor makes of it with lazy evaluation.
\<close>

definition callFoo :: llvm_function where
  "callFoo = \<lparr>fval = 3, args = [], insts = [], isDeclaration = True, parentGlobals = []\<rparr>"

definition callMain :: llvm_function where
  "callMain =
     \<lparr>fval = 4, args = [], insts = [Instruction 7 (CallBase 3 [])], isDeclaration = False,
      parentGlobals = []\<rparr>"

definition callIR :: ir_view where
  "callIR =
     \<lparr>getAllModules = [\<lparr>moduleGlobals = [], moduleFunctions = [callFoo, callMain]\<rparr>],
      isPointerTy = (\<lambda>v. v = 3 \<or> v = 4),
      isInterestingPointer = (\<lambda>v. v = 3 \<or> v = 4),
      isFunction = (\<lambda>v. v = 3 \<or> v = 4),
      isGlobalObject = (\<lambda>v. v = 3 \<or> v = 4),
      users = (\<lambda>v. if v = 3 then [InstUser (Instruction 7 (CallBase 3 [])) (Some (Some callMain))]
                     else []),
      constantExprBitCast = (\<lambda>v. None),
      retrieveFunction = (\<lambda>v. if v = 7 then Some callMain else None),
      aaAlias = (\<lambda>_ _ _. NoAlias)\<rparr>"

definition callEngine :: LLVMPointsToSet where
  "callEngine =
     \<lparr>PointsToSets = [3 \<mapsto> 0, 4 \<mapsto> 1], Heap = (\<lambda>_. {})(0 := {3}, 1 := {4}),
      AnalyzedFunctions = {Some 4}, NextAddr = 2\<rparr>"

text \<open>
  A module with the globals \<^verbatim>\<open>@h\<close> (value 1) and \<^verbatim>\<open>@g\<close> (value 2), a
  declaration \<^verbatim>\<open>@foo\<close> (value 3) and a function \<^verbatim>\<open>@main\<close> (value 4) with the
  instructions
  \<^verbatim>\<open>%slot = alloca\<close> (5), \<^verbatim>\<open>%slot2 = alloca\<close> (6),
  \<^verbatim>\<open>store i32()* @foo, i32()** %slot\<close> (7) and
  \<^verbatim>\<open>store i8* bitcast (i32* @g to i8*), i8** %slot2\<close> (8); the constant expression
  is value 9, and 0 is the null pointer. The oracle answers \<^verbatim>\<open>NoAlias\<close>.
  \<open>exampleEngine\<close> is the engine after the analysis of \<^verbatim>\<open>@main\<close>,
  \<open>reloadedEngine\<close> the engine loaded from the file saved from it.
\<close>

definition exampleMain :: llvm_function where
  "exampleMain =
     \<lparr>fval = 4, args = [],
      insts = [Instruction 5 (OtherInst []), Instruction 6 (OtherInst []),
               Instruction 7 (StoreInst 3 5), Instruction 8 (StoreInst 9 6)],
      isDeclaration = False, parentGlobals = [1, 2]\<rparr>"

definition exampleFoo :: llvm_function where
  "exampleFoo = \<lparr>fval = 3, args = [], insts = [], isDeclaration = True, parentGlobals = [1, 2]\<rparr>"

definition exampleIR :: ir_view where
  "exampleIR =
     \<lparr>getAllModules = [\<lparr>moduleGlobals = [1, 2], moduleFunctions = [exampleFoo, exampleMain]\<rparr>],
      isPointerTy = (\<lambda>v. v \<in> {0, 1, 2, 3, 4, 5, 6, 9}),
      isInterestingPointer = (\<lambda>v. v \<in> {1, 2, 3, 4, 5, 6, 9}),
      isFunction = (\<lambda>v. v \<in> {3, 4}),
      isGlobalObject = (\<lambda>v. v \<in> {1, 2, 3, 4}),
      users = (\<lambda>v. if v = 3 then [InstUser (Instruction 7 (StoreInst 3 5)) (Some (Some exampleMain))]
                     else if v = 2 then [OtherUser 9] else []),
      constantExprBitCast = (\<lambda>v. if v = 9 then Some 2 else None),
      retrieveFunction = (\<lambda>v. if v \<in> {5, 6, 7, 8} then Some exampleMain else None),
      aaAlias = (\<lambda>_ _ _. NoAlias)\<rparr>"

definition exampleEngine :: LLVMPointsToSet where
  "exampleEngine =
     \<lparr>PointsToSets = [1 \<mapsto> 5, 2 \<mapsto> 4, 3 \<mapsto> 1, 5 \<mapsto> 1, 6 \<mapsto> 4, 9 \<mapsto> 4],
      Heap = (\<lambda>_. {})(1 := {3, 5}, 4 := {2, 6, 9}, 5 := {1}),
      AnalyzedFunctions = {Some 4}, NextAddr = 6\<rparr>"

definition reloadedEngine :: LLVMPointsToSet where
  "reloadedEngine =
     \<lparr>PointsToSets = [1 \<mapsto> 1, 2 \<mapsto> 1, 6 \<mapsto> 1, 3 \<mapsto> 2, 5 \<mapsto> 2],
      Heap = (\<lambda>_. {})(0 := {1}, 1 := {1, 2, 6}, 2 := {3, 5}),
      AnalyzedFunctions = {Some 4}, NextAddr = 3\<rparr>"

text \<open>
  A module with the declaration \<^verbatim>\<open>@foo\<close> (value 3) and a function \<^verbatim>\<open>@main\<close>
  (value 4) whose only instruction is \<^verbatim>\<open>store void()* @foo, void()** null\<close>
  (value 7); the null pointer is value 0, a pointer that is not interesting.
\<close>

definition nullStoreMain :: llvm_function where
  "nullStoreMain =
     \<lparr>fval = 4, args = [], insts = [Instruction 7 (StoreInst 3 0)],
      isDeclaration = False, parentGlobals = []\<rparr>"

definition nullStoreIR :: ir_view where
  "nullStoreIR =
     \<lparr>getAllModules = [\<lparr>moduleGlobals = [], moduleFunctions = [callFoo, nullStoreMain]\<rparr>],
      isPointerTy = (\<lambda>v. v \<in> {0, 3, 4}),
      isInterestingPointer = (\<lambda>v. v \<in> {3, 4}),
      isFunction = (\<lambda>v. v \<in> {3, 4}),
      isGlobalObject = (\<lambda>v. v \<in> {3, 4}),
      users = (\<lambda>v. if v = 3 then [InstUser (Instruction 7 (StoreInst 3 0)) (Some (Some nullStoreMain))]
                     else []),
      constantExprBitCast = (\<lambda>v. None),
      retrieveFunction = (\<lambda>v. if v = 7 then Some nullStoreMain else None),
      aaAlias = (\<lambda>_ _ _. NoAlias)\<rparr>"

definition nullStoreEngine :: LLVMPointsToSet where
  "nullStoreEngine =
     \<lparr>PointsToSets = [3 \<mapsto> 1, 0 \<mapsto> 1], Heap = (\<lambda>_. {})(1 := {0, 3}),
      AnalyzedFunctions = {Some 4}, NextAddr = 2\<rparr>"

text \<open>
  The engine that \<^verbatim>\<open>mergeWith\<close> makes of \<open>separateAllocas\<close> when the other engine
  is \<open>mergedAllocas\<close>: 6 is a member of the set of 5 and is bound to its own set.
\<close>

definition asymmetricAllocas :: LLVMPointsToSet where
  "asymmetricAllocas =
     \<lparr>PointsToSets = [5 \<mapsto> 0, 6 \<mapsto> 1], Heap = (\<lambda>_. {})(0 := {5, 6}, 1 := {6}),
      AnalyzedFunctions = {Some 4}, NextAddr = 2\<rparr>"





section \<open>Sequencing and loops\<close>

lemma andThen_simps [simp]:
  "andThen (Inl e) f = Inl e" "andThen (Inr x) f = f x"
  by (simp_all add: andThen_def)

lemma andThen_Inr: "andThen r f = Inr y \<longleftrightarrow> (\<exists>x. r = Inr x \<and> f x = Inr y)"
  by (cases r) simp_all

lemma foldE_append:
  "foldE f (xs @ ys) s = (case foldE f xs s of Inl e \<Rightarrow> Inl e | Inr s' \<Rightarrow> foldE f ys s')"
  by (induction xs arbitrary: s) (auto split: sum.splits)

lemma foldE_invariant:
  assumes "foldE f xs s = Inr s'" and "P s"
    and "\<And>x t t'. x \<in> set xs \<Longrightarrow> P t \<Longrightarrow> f x t = Inr t' \<Longrightarrow> P t'"
  shows "P s'"
  using assms
proof (induction xs arbitrary: s)
  case Nil
  then show ?case by simp
next
  case (Cons x xs)
  from Cons.prems(1) obtain t where t: "f x s = Inr t" "foldE f xs t = Inr s'"
    by (auto split: sum.splits)
  have Pt: "P t" using Cons.prems(3)[of x s t] Cons.prems(2) t(1) by simp
  show ?case
  proof (rule Cons.IH[OF t(2) Pt])
    fix y u u' assume "y \<in> set xs" "P u" "f y u = Inr u'"
    then show "P u'" using Cons.prems(3)[of y u u'] by simp
  qed
qed

lemma foldE_total:
  assumes "P s"
    and "\<And>x t. x \<in> set xs \<Longrightarrow> P t \<Longrightarrow> \<exists>t'. f x t = Inr t' \<and> P t'"
  shows "\<exists>s'. foldE f xs s = Inr s' \<and> P s'"
  using assms
proof (induction xs arbitrary: s)
  case Nil
  then show ?case by simp
next
  case (Cons x xs)
  from Cons.prems(2)[of x s] Cons.prems(1) obtain t where t: "f x s = Inr t" "P t" by auto
  have "\<exists>s'. foldE f xs t = Inr s' \<and> P s'"
  proof (rule Cons.IH[OF t(2)])
    fix y u assume "y \<in> set xs" "P u"
    then show "\<exists>t'. f y u = Inr t' \<and> P t'" using Cons.prems(2)[of y u] by simp
  qed
  with t show ?case by simp
qed

section \<open>Singletons and merges keep the invariants\<close>

lemma addSingleton_None_fields:
  assumes "PointsToSets s V = None"
  shows "PointsToSets (addSingletonPointsToSet V s) = (PointsToSets s)(V \<mapsto> NextAddr s)"
    and "Heap (addSingletonPointsToSet V s) = (Heap s)(NextAddr s := {V})"
    and "NextAddr (addSingletonPointsToSet V s) = Suc (NextAddr s)"
    and "AnalyzedFunctions (addSingletonPointsToSet V s) = AnalyzedFunctions s"
  using assms by (simp_all add: addSingletonPointsToSet_def make_shared_def)

lemma addSingleton_Some_fields:
  assumes "PointsToSets s V = Some h"
  shows "PointsToSets (addSingletonPointsToSet V s) = PointsToSets s"
    and "Heap (addSingletonPointsToSet V s) = (Heap s)(h := insert V (Heap s h))"
    and "NextAddr (addSingletonPointsToSet V s) = NextAddr s"
    and "AnalyzedFunctions (addSingletonPointsToSet V s) = AnalyzedFunctions s"
  using assms by (simp_all add: addSingletonPointsToSet_def)

lemma addSingleton_reflexive:
  assumes "reflexive s" "allocated s"
  shows "reflexive (addSingletonPointsToSet V s)"
proof (cases "PointsToSets s V")
  case None
  show ?thesis unfolding reflexive_def
  proof (intro allI impI)
    fix W h assume b: "PointsToSets (addSingletonPointsToSet V s) W = Some h"
    show "W \<in> Heap (addSingletonPointsToSet V s) h"
    proof (cases "W = V")
      case True
      with b show ?thesis by (simp add: addSingleton_None_fields[OF None])
    next
      case False
      with b have o: "PointsToSets s W = Some h" by (simp add: addSingleton_None_fields[OF None])
      with assms have "W \<in> Heap s h" "h \<noteq> NextAddr s"
        by (auto simp: reflexive_def allocated_def)
      then show ?thesis by (simp add: addSingleton_None_fields[OF None])
    qed
  qed
next
  case (Some h0)
  show ?thesis unfolding reflexive_def
  proof (intro allI impI)
    fix W h assume b: "PointsToSets (addSingletonPointsToSet V s) W = Some h"
    then have "PointsToSets s W = Some h" by (simp add: addSingleton_Some_fields[OF Some])
    with assms have "W \<in> Heap s h" by (auto simp: reflexive_def)
    then show "W \<in> Heap (addSingletonPointsToSet V s) h"
      by (auto simp add: addSingleton_Some_fields[OF Some])
  qed
qed

lemma addSingleton_canonical:
  assumes "canonical s" "allocated s"
  shows "canonical (addSingletonPointsToSet V s)"
proof (cases "PointsToSets s V")
  case None
  show ?thesis unfolding canonical_def
  proof (intro allI impI)
    fix U h W assume b: "PointsToSets (addSingletonPointsToSet V s) U = Some h"
      and w: "W \<in> Heap (addSingletonPointsToSet V s) h"
    show "PointsToSets (addSingletonPointsToSet V s) W = Some h"
    proof (cases "U = V")
      case True
      with b w show ?thesis by (simp add: addSingleton_None_fields[OF None])
    next
      case False
      with b have o: "PointsToSets s U = Some h" by (simp add: addSingleton_None_fields[OF None])
      with assms have ne: "h \<noteq> NextAddr s" by (auto simp: allocated_def)
      with w have "W \<in> Heap s h" by (simp add: addSingleton_None_fields[OF None])
      with o assms(1) have ow: "PointsToSets s W = Some h" unfolding canonical_def by blast
      with None have "W \<noteq> V" by auto
      with ow show ?thesis by (simp add: addSingleton_None_fields[OF None])
    qed
  qed
next
  case (Some h0)
  show ?thesis unfolding canonical_def
  proof (intro allI impI)
    fix U h W assume b: "PointsToSets (addSingletonPointsToSet V s) U = Some h"
      and w: "W \<in> Heap (addSingletonPointsToSet V s) h"
    from b have o: "PointsToSets s U = Some h" by (simp add: addSingleton_Some_fields[OF Some])
    have "PointsToSets s W = Some h"
    proof (cases "W \<in> Heap s h")
      case True
      with o assms(1) show ?thesis unfolding canonical_def by blast
    next
      case False
      with w have "h = h0 \<and> W = V" by (simp add: addSingleton_Some_fields[OF Some] split: if_splits)
      with Some show ?thesis by simp
    qed
    then show "PointsToSets (addSingletonPointsToSet V s) W = Some h"
      by (simp add: addSingleton_Some_fields[OF Some])
  qed
qed

lemma addSingleton_allocated:
  assumes "allocated s"
  shows "allocated (addSingletonPointsToSet V s)"
proof (cases "PointsToSets s V")
  case None
  show ?thesis using assms unfolding allocated_def
    by (simp add: addSingleton_None_fields[OF None] less_Suc_eq)
next
  case (Some h0)
  show ?thesis using assms unfolding allocated_def
    by (simp add: addSingleton_Some_fields[OF Some])
qed

lemma addSingleton_bound:
  "\<exists>h. PointsToSets (addSingletonPointsToSet V s) V = Some h
       \<and> V \<in> Heap (addSingletonPointsToSet V s) h"
  by (cases "PointsToSets s V") (simp_all add: addSingletonPointsToSet_def make_shared_def)

lemma addSingleton_keeps:
  "PointsToSets s a = Some h \<Longrightarrow> PointsToSets (addSingletonPointsToSet V s) a = Some h"
  by (cases "PointsToSets s V") (auto simp add: addSingletonPointsToSet_def make_shared_def)

lemma addSingleton_dom:
  "dom (PointsToSets (addSingletonPointsToSet V s)) = insert V (dom (PointsToSets s))"
  by (cases "PointsToSets s V") (auto simp add: addSingletonPointsToSet_def make_shared_def)

lemma addSingleton_analyzed:
  "AnalyzedFunctions (addSingletonPointsToSet V s) = AnalyzedFunctions s"
  by (cases "PointsToSets s V") (simp_all add: addSingletonPointsToSet_def make_shared_def)

lemma addSingleton_invariants:
  "invariants s \<Longrightarrow> invariants (addSingletonPointsToSet V s)"
  by (simp add: invariants_def addSingleton_reflexive addSingleton_canonical addSingleton_allocated)

lemma absorb_fields:
  assumes "hS \<noteq> hL"
  shows "PointsToSets (absorb hS hL s) =
           (\<lambda>Ptr. if Ptr \<in> Heap s hS then Some hL else PointsToSets s Ptr)"
    and "Heap (absorb hS hL s) = (Heap s)(hL := Heap s hL \<union> Heap s hS, hS := {})"
    and "NextAddr (absorb hS hL s) = NextAddr s"
    and "AnalyzedFunctions (absorb hS hL s) = AnalyzedFunctions s"
  using assms by (simp_all add: absorb_def Let_def)

lemma merge_Inr_elim:
  assumes "mergePointsToSets V1 V2 s = Inr s'" and "reflexive s"
  obtains (unchanged) h1 where "PointsToSets s V1 = Some h1" "V1 = V2 \<or> V2 \<in> Heap s h1" "s' = s"
  | (merged) hS hL where "hS \<noteq> hL" "V1 \<noteq> V2"
      "(PointsToSets s V1 = Some hS \<and> PointsToSets s V2 = Some hL)
       \<or> (PointsToSets s V2 = Some hS \<and> PointsToSets s V1 = Some hL)"
      "card (Heap s hS) \<le> card (Heap s hL)"
      "V2 \<notin> Heap s (the (PointsToSets s V1))"
      "s' = absorb hS hL s"
proof -
  from assms(1) obtain h1 h2 where b: "PointsToSets s V1 = Some h1" "PointsToSets s V2 = Some h2"
    by (auto simp: mergePointsToSets_def split: option.splits)
  show thesis
  proof (cases "V1 = V2 \<or> V2 \<in> Heap s h1")
    case True
    with assms b have "s' = s" by (auto simp: mergePointsToSets_def split: if_splits)
    with b True show thesis by (intro unchanged[of h1]) simp_all
  next
    case False
    from assms(2) b have m: "V1 \<in> Heap s h1" "V2 \<in> Heap s h2" by (auto simp: reflexive_def)
    with False have ne: "h1 \<noteq> h2" by auto
    show thesis
    proof (cases "card (Heap s h1) \<le> card (Heap s h2)")
      case True
      with assms b False have "s' = absorb h1 h2 s" by (simp add: mergePointsToSets_def)
      with b False ne True show thesis by (intro merged[of h1 h2]) auto
    next
      case le: False
      with assms b False have "s' = absorb h2 h1 s" by (simp add: mergePointsToSets_def)
      with b False ne le show thesis by (intro merged[of h2 h1]) auto
    qed
  qed
qed

lemma absorb_reflexive:
  assumes "reflexive s" "hS \<noteq> hL"
  shows "reflexive (absorb hS hL s)"
  unfolding reflexive_def
proof (intro allI impI)
  fix W h assume b: "PointsToSets (absorb hS hL s) W = Some h"
  show "W \<in> Heap (absorb hS hL s) h"
  proof (cases "W \<in> Heap s hS")
    case True
    with b assms(2) show ?thesis by (simp add: absorb_fields)
  next
    case False
    with b assms(2) have o: "PointsToSets s W = Some h" by (simp add: absorb_fields)
    with assms(1) have "W \<in> Heap s h" by (auto simp: reflexive_def)
    with False assms(2) show ?thesis by (auto simp: absorb_fields)
  qed
qed

lemma absorb_canonical:
  assumes "reflexive s" "canonical s" "hS \<noteq> hL"
    and "PointsToSets s a = Some hS" "PointsToSets s b = Some hL"
  shows "canonical (absorb hS hL s)"
  unfolding canonical_def
proof (intro allI impI)
  fix U h W assume u: "PointsToSets (absorb hS hL s) U = Some h"
    and w: "W \<in> Heap (absorb hS hL s) h"
  have S: "\<And>x. x \<in> Heap s hS \<Longrightarrow> PointsToSets s x = Some hS"
    using assms(2,4) unfolding canonical_def by blast
  have L: "\<And>x. x \<in> Heap s hL \<Longrightarrow> PointsToSets s x = Some hL"
    using assms(2,5) unfolding canonical_def by blast
  show "PointsToSets (absorb hS hL s) W = Some h"
  proof (cases "h = hL")
    case True
    with w assms(3) have "W \<in> Heap s hL \<or> W \<in> Heap s hS" by (auto simp: absorb_fields)
    with True assms(3) L show ?thesis by (auto simp: absorb_fields)
  next
    case False
    with u assms(3) have o: "PointsToSets s U = Some h" "U \<notin> Heap s hS"
      by (auto simp: absorb_fields split: if_splits)
    with assms(1) have "U \<in> Heap s h" by (auto simp: reflexive_def)
    with o have hs: "h \<noteq> hS" by auto
    with False w assms(3) have wh: "W \<in> Heap s h" by (auto simp: absorb_fields)
    with o assms(2) have ow: "PointsToSets s W = Some h" unfolding canonical_def by blast
    with hs S have "W \<notin> Heap s hS" by auto
    with ow assms(3) show ?thesis by (simp add: absorb_fields)
  qed
qed

lemma absorb_allocated:
  assumes "allocated s" "hS \<noteq> hL" "PointsToSets s b = Some hL"
  shows "allocated (absorb hS hL s)"
  using assms unfolding allocated_def by (auto simp: absorb_fields split: if_splits)

lemma merge_invariants:
  assumes "invariants s" "mergePointsToSets V1 V2 s = Inr s'"
  shows "invariants s'"
proof -
  from assms(1) have r: "reflexive s" and c: "canonical s" and a: "allocated s"
    by (simp_all add: invariants_def)
  from assms(2) r show ?thesis
  proof (cases rule: merge_Inr_elim)
    case (unchanged h1)
    with assms(1) show ?thesis by simp
  next
    case (merged hS hL)
    from merged(3) obtain x y where xy: "PointsToSets s x = Some hS" "PointsToSets s y = Some hL"
      by auto
    show ?thesis unfolding invariants_def merged(6)
      using absorb_reflexive[OF r merged(1)] absorb_canonical[OF r c merged(1) xy]
        absorb_allocated[OF a merged(1) xy(2)] by simp
  qed
qed

lemma merge_total:
  "V1 \<in> dom (PointsToSets s) \<Longrightarrow> V2 \<in> dom (PointsToSets s) \<Longrightarrow>
   \<exists>s'. mergePointsToSets V1 V2 s = Inr s'"
  by (auto simp: mergePointsToSets_def)

lemma merge_Inr_cases:
  assumes "mergePointsToSets V1 V2 s = Inr s'"
  obtains (same) "s' = s" | (absorbed) hS hL where "s' = absorb hS hL s"
proof -
  from assms obtain h1 h2 where b: "PointsToSets s V1 = Some h1" "PointsToSets s V2 = Some h2"
    by (auto simp: mergePointsToSets_def split: option.splits)
  from assms have "s' = s \<or> s' = absorb h1 h2 s \<or> s' = absorb h2 h1 s"
    unfolding mergePointsToSets_def b by (simp split: if_splits)
  then show thesis using same absorbed by blast
qed

lemma absorb_analyzed: "AnalyzedFunctions (absorb hS hL s) = AnalyzedFunctions s"
  by (simp add: absorb_def Let_def)

lemma absorb_dom_mono: "dom (PointsToSets s) \<subseteq> dom (PointsToSets (absorb hS hL s))"
  by (auto simp: absorb_def Let_def)

lemma merge_analyzed:
  assumes "mergePointsToSets V1 V2 s = Inr s'"
  shows "AnalyzedFunctions s' = AnalyzedFunctions s"
  using assms by (cases rule: merge_Inr_cases) (simp_all add: absorb_analyzed)

lemma merge_dom_mono:
  assumes "mergePointsToSets V1 V2 s = Inr s'"
  shows "dom (PointsToSets s) \<subseteq> dom (PointsToSets s')"
  using assms by (cases rule: merge_Inr_cases) (simp_all add: absorb_dom_mono)

text \<open>Two keys of one set stay keys of one set.\<close>

lemma merge_keeps_same:
  assumes "invariants s" "mergePointsToSets V1 V2 s = Inr s'"
    and "PointsToSets s a = Some h" "PointsToSets s b = Some h"
  shows "\<exists>h'. PointsToSets s' a = Some h' \<and> PointsToSets s' b = Some h'"
proof -
  from assms(1) have r: "reflexive s" and c: "canonical s"
    by (simp_all add: invariants_def)
  from assms(2) r show ?thesis
  proof (cases rule: merge_Inr_elim)
    case (unchanged h1)
    with assms show ?thesis by simp
  next
    case (merged hS hL)
    from merged(3) obtain x where x: "PointsToSets s x = Some hS" by auto
    have S: "\<And>p. p \<in> Heap s hS \<Longrightarrow> PointsToSets s p = Some hS"
      using c x unfolding canonical_def by blast
    from r assms(3,4) have m: "a \<in> Heap s h" "b \<in> Heap s h" by (auto simp: reflexive_def)
    show ?thesis
    proof (cases "h = hS")
      case True
      with m merged(1) show ?thesis by (simp add: merged(6) absorb_fields)
    next
      case False
      with S assms(3,4) have "a \<notin> Heap s hS" "b \<notin> Heap s hS" by auto
      with assms(3,4) merged(1) show ?thesis by (simp add: merged(6) absorb_fields)
    qed
  qed
qed

lemma merge_same_after:
  assumes "invariants s" "mergePointsToSets V1 V2 s = Inr s'"
  shows "\<exists>h'. PointsToSets s' V1 = Some h' \<and> PointsToSets s' V2 = Some h'"
proof -
  from assms(1) have r: "reflexive s" and c: "canonical s"
    by (simp_all add: invariants_def)
  from assms(2) r show ?thesis
  proof (cases rule: merge_Inr_elim)
    case (unchanged h1)
    have "PointsToSets s V2 = Some h1"
    proof (cases "V1 = V2")
      case True
      with unchanged(1) show ?thesis by simp
    next
      case False
      with unchanged(2) have "V2 \<in> Heap s h1" by simp
      with c unchanged(1) show ?thesis unfolding canonical_def by blast
    qed
    with unchanged show ?thesis by simp
  next
    case (merged hS hL)
    from merged(3) r have "(V1 \<in> Heap s hS \<and> PointsToSets s V2 = Some hL)
        \<or> (V2 \<in> Heap s hS \<and> PointsToSets s V1 = Some hL)"
      by (auto simp: reflexive_def)
    with merged(1) show ?thesis by (auto simp: merged(6) absorb_fields)
  qed
qed

section \<open>The claims about the store and the null function\<close>

lemma invariants_emptyEngine: "invariants emptyEngine"
  by (simp add: invariants_def reflexive_def canonical_def allocated_def emptyEngine_def)

lemma absorb_effect:
  "PointsToSets (absorb hS hL s) =
     (\<lambda>Ptr. if Ptr \<in> Heap s hS then Some hL else PointsToSets s Ptr)"
  "Heap (absorb hS hL s) hS = {}"
  "hS \<noteq> hL \<Longrightarrow> Heap (absorb hS hL s) hL = Heap s hL \<union> Heap s hS"
  "h \<noteq> hS \<Longrightarrow> h \<noteq> hL \<Longrightarrow> Heap (absorb hS hL s) h = Heap s h"
  "AnalyzedFunctions (absorb hS hL s) = AnalyzedFunctions s"
  "NextAddr (absorb hS hL s) = NextAddr s"
  by (auto simp: absorb_def Let_def fun_eq_iff)

text \<open>
  Claim C5, as amended. When both values have sets: the call changes nothing when the two
  values are the same or the second is a member of the set of the first; otherwise it
  returns, the smaller set (the set of \<open>V1\<close> on a tie) is inserted into the larger
  one, every member of the smaller set is rebound to the larger set, the smaller set is
  emptied, and nothing else changes. The test of the code is the membership, not the
  identity of the two handles: the two agree in a state where every key is a member of
  its set and the members of a bound set are bound to it, and where every key is a member
  of its set the two sets of the second case are two objects.
\<close>

theorem mergePointsToSets_weighted_union:
  assumes "PointsToSets s V1 = Some h1" and "PointsToSets s V2 = Some h2"
  shows "(V1 = V2 \<or> V2 \<in> Heap s h1 \<longrightarrow> mergePointsToSets V1 V2 s = Inr s) \<and>
         (V1 \<noteq> V2 \<and> V2 \<notin> Heap s h1 \<longrightarrow>
            (\<exists>s' hS hL.
               mergePointsToSets V1 V2 s = Inr s' \<and>
               hS = (if card (Heap s h1) \<le> card (Heap s h2) then h1 else h2) \<and>
               hL = (if card (Heap s h1) \<le> card (Heap s h2) then h2 else h1) \<and>
               (hS \<noteq> hL \<longrightarrow> Heap s' hL = Heap s hL \<union> Heap s hS) \<and>
               Heap s' hS = {} \<and>
               (\<forall>x \<in> Heap s hS. PointsToSets s' x = Some hL) \<and>
               (\<forall>x. x \<notin> Heap s hS \<longrightarrow> PointsToSets s' x = PointsToSets s x) \<and>
               (\<forall>h. h \<noteq> hS \<and> h \<noteq> hL \<longrightarrow> Heap s' h = Heap s h) \<and>
               AnalyzedFunctions s' = AnalyzedFunctions s \<and> NextAddr s' = NextAddr s)) \<and>
         (reflexive s \<longrightarrow> V1 \<noteq> V2 \<and> V2 \<notin> Heap s h1 \<longrightarrow> h1 \<noteq> h2) \<and>
         (reflexive s \<and> canonical s \<longrightarrow> ((V1 = V2 \<or> V2 \<in> Heap s h1) \<longleftrightarrow> h1 = h2))"
proof (intro conjI impI)
  assume "V1 = V2 \<or> V2 \<in> Heap s h1"
  with assms show "mergePointsToSets V1 V2 s = Inr s"
    by (auto simp: mergePointsToSets_def)
next
  assume a: "V1 \<noteq> V2 \<and> V2 \<notin> Heap s h1"
  with assms have m: "mergePointsToSets V1 V2 s =
      Inr (if card (Heap s h1) \<le> card (Heap s h2) then absorb h1 h2 s else absorb h2 h1 s)"
    by (simp add: mergePointsToSets_def)
  show "\<exists>s' hS hL.
           mergePointsToSets V1 V2 s = Inr s' \<and>
           hS = (if card (Heap s h1) \<le> card (Heap s h2) then h1 else h2) \<and>
           hL = (if card (Heap s h1) \<le> card (Heap s h2) then h2 else h1) \<and>
           (hS \<noteq> hL \<longrightarrow> Heap s' hL = Heap s hL \<union> Heap s hS) \<and>
           Heap s' hS = {} \<and>
           (\<forall>x \<in> Heap s hS. PointsToSets s' x = Some hL) \<and>
           (\<forall>x. x \<notin> Heap s hS \<longrightarrow> PointsToSets s' x = PointsToSets s x) \<and>
           (\<forall>h. h \<noteq> hS \<and> h \<noteq> hL \<longrightarrow> Heap s' h = Heap s h) \<and>
           AnalyzedFunctions s' = AnalyzedFunctions s \<and> NextAddr s' = NextAddr s"
  proof (cases "card (Heap s h1) \<le> card (Heap s h2)")
    case True
    with m show ?thesis by (simp add: absorb_effect)
  next
    case False
    with m show ?thesis by (simp add: absorb_effect)
  qed
next
  assume r: "reflexive s" and a: "V1 \<noteq> V2 \<and> V2 \<notin> Heap s h1"
  from r assms(2) have "V2 \<in> Heap s h2" by (auto simp: reflexive_def)
  with a show "h1 \<noteq> h2" by auto
next
  assume rc: "reflexive s \<and> canonical s"
  show "(V1 = V2 \<or> V2 \<in> Heap s h1) \<longleftrightarrow> h1 = h2"
  proof
    assume "V1 = V2 \<or> V2 \<in> Heap s h1"
    then show "h1 = h2"
    proof
      assume "V1 = V2"
      with assms show ?thesis by simp
    next
      assume "V2 \<in> Heap s h1"
      with rc assms(1) have "PointsToSets s V2 = Some h1" unfolding canonical_def by blast
      with assms(2) show ?thesis by simp
    qed
  next
    assume "h1 = h2"
    with rc assms(2) have "V2 \<in> Heap s h1" by (auto simp: reflexive_def)
    then show "V1 = V2 \<or> V2 \<in> Heap s h1" by simp
  qed
qed

lemma twoSingletons_fields:
  "PointsToSets twoSingletons = [1 \<mapsto> 0, 2 \<mapsto> 1]"
  "Heap twoSingletons = (\<lambda>_. {})(0 := {1}, 1 := {2})"
  by (simp_all add: twoSingletons_def addSingletonPointsToSet_def make_shared_def emptyEngine_def)

theorem mergePointsToSets_weighted_union_witness:
  "PointsToSets twoSingletons 1 = Some 0 \<and> PointsToSets twoSingletons 2 = Some 1 \<and>
   reflexive twoSingletons \<and> canonical twoSingletons \<and>
   (1::nat) \<noteq> 2 \<and> 2 \<notin> Heap twoSingletons 0 \<and>
   (\<exists>s'. mergePointsToSets 1 2 twoSingletons = Inr s' \<and>
         Heap s' 1 = {1, 2} \<and> Heap s' 0 = {} \<and>
         PointsToSets s' 1 = Some 1 \<and> PointsToSets s' 2 = Some 1) \<and>
   PointsToSets asymmetricAllocas 5 = Some 0 \<and> PointsToSets asymmetricAllocas 6 = Some 1 \<and>
   6 \<in> Heap asymmetricAllocas 0 \<and>
   mergePointsToSets 5 6 asymmetricAllocas = Inr asymmetricAllocas"
proof -
  have i: "invariants twoSingletons"
    unfolding twoSingletons_def
    by (intro addSingleton_invariants invariants_emptyEngine)
  then have r: "reflexive twoSingletons" and c: "canonical twoSingletons"
    by (simp_all add: invariants_def)
  have b: "PointsToSets twoSingletons 1 = Some 0" "PointsToSets twoSingletons 2 = Some 1"
    by (simp_all add: twoSingletons_fields)
  have a: "PointsToSets asymmetricAllocas 5 = Some 0" "PointsToSets asymmetricAllocas 6 = Some 1"
    "6 \<in> Heap asymmetricAllocas 0"
    by (simp_all add: asymmetricAllocas_def)
  from mergePointsToSets_weighted_union[OF b]
    mergePointsToSets_weighted_union[OF a(1,2)]
  show ?thesis using r c b a by (auto simp: twoSingletons_fields)
qed



text \<open>
  Claim C10. \<^verbatim>\<open>getPointsToSet\<close> on a value that is not an interesting pointer
  returns a newly allocated empty set and leaves the map as it was; a second call returns
  another newly allocated empty set, at a different address.
\<close>

theorem getPointsToSet_uninteresting:
  assumes "\<not> isInterestingPointer ir V"
  shows "\<exists>h1 s1 h2 s2.
           getPointsToSet ir V s = Inr (h1, s1) \<and> getPointsToSet ir V s1 = Inr (h2, s2) \<and>
           h1 = NextAddr s \<and> h2 = NextAddr s1 \<and> h1 \<noteq> h2 \<and>
           Heap s1 h1 = {} \<and> Heap s2 h2 = {} \<and> Heap s2 h1 = {} \<and>
           PointsToSets s1 = PointsToSets s \<and> PointsToSets s2 = PointsToSets s \<and>
           AnalyzedFunctions s2 = AnalyzedFunctions s"
  using assms by (simp add: getPointsToSet_def make_shared_def)

theorem getPointsToSet_uninteresting_witness:
  "\<not> isInterestingPointer looseValues 0 \<and>
   (\<exists>s1 s2. getPointsToSet looseValues 0 emptyEngine = Inr (0, s1) \<and>
            getPointsToSet looseValues 0 s1 = Inr (1, s2) \<and>
            PointsToSets s2 0 = None \<and> Heap s2 0 = {} \<and> Heap s2 1 = {})"
  using getPointsToSet_uninteresting[of looseValues 0 emptyEngine]
  by (simp add: looseValues_def emptyEngine_def getPointsToSet_def make_shared_def)

section \<open>What the analyzer and the driver keep\<close>

lemma grows_trans: "grows t u \<Longrightarrow> grows s t \<Longrightarrow> grows s u"
  by (induction rule: grows.induct) (auto intro: grows.intros)

lemma invariants_analyzed_update [simp]:
  "invariants (s\<lparr>AnalyzedFunctions := A\<rparr>) = invariants s"
  by (simp add: invariants_def reflexive_def canonical_def allocated_def)

lemma grows_invariants: "grows s t \<Longrightarrow> invariants s \<Longrightarrow> invariants t"
  by (induction rule: grows.induct) (auto intro: addSingleton_invariants merge_invariants)

lemma grows_dom_mono: "grows s t \<Longrightarrow> dom (PointsToSets s) \<subseteq> dom (PointsToSets t)"
proof (induction rule: grows.induct)
  case (merged s t V1 V2 u)
  then show ?case using merge_dom_mono by blast
qed (auto simp: addSingleton_dom)

lemma grows_keeps_same:
  assumes "grows s t" "invariants s" "PointsToSets s a = Some h" "PointsToSets s b = Some h"
  shows "\<exists>h'. PointsToSets t a = Some h' \<and> PointsToSets t b = Some h'"
  using assms
proof (induction rule: grows.induct)
  case (same s)
  then show ?case by simp
next
  case (singleton s t V)
  then obtain h' where "PointsToSets t a = Some h'" "PointsToSets t b = Some h'" by blast
  then show ?case by (auto intro: addSingleton_keeps)
next
  case (merged s t V1 V2 u)
  then obtain h' where h': "PointsToSets t a = Some h'" "PointsToSets t b = Some h'" by blast
  from merged have "invariants t" by (auto intro: grows_invariants)
  from merge_keeps_same[OF this merged(2) h'] show ?case .
qed

lemma grows_analyzed: "grows s t \<Longrightarrow> AnalyzedFunctions t = AnalyzedFunctions s"
  by (induction rule: grows.induct) (auto simp: addSingleton_analyzed dest: merge_analyzed)

lemma merge_after_singletons:
  "\<exists>u. mergePointsToSets V1 V2 (addSingletonPointsToSet V2 (addSingletonPointsToSet V1 s)) = Inr u"
  by (rule merge_total) (simp_all add: addSingleton_dom)

lemma storeRules_Inr_elim:
  assumes "storeRules ir SVO SPO s = Inr s'" and "isPointerTy ir SVO"
  obtains s1 where
    "(if isFunction ir SVO
      then mergePointsToSets SVO SPO (addSingletonPointsToSet SPO (addSingletonPointsToSet SVO s))
      else Inr s) = Inr s1"
    "grows s s1" "grows s1 s'"
proof -
  from assms obtain s1 where
    a: "(if isFunction ir SVO
         then mergePointsToSets SVO SPO (addSingletonPointsToSet SPO (addSingletonPointsToSet SVO s))
         else Inr s) = Inr s1"
    and b: "(case constantExprBitCast ir SVO of
               None \<Rightarrow> Inr s1
             | Some RHS \<Rightarrow>
                 andThen
                   (mergePointsToSets RHS SPO
                      (addSingletonPointsToSet SPO
                         (addSingletonPointsToSet SVO (addSingletonPointsToSet RHS s1))))
                   (mergePointsToSets SVO SPO)) = Inr s'"
    by (auto simp: storeRules_def andThen_Inr)
  have g1: "grows s s1"
  proof (cases "isFunction ir SVO")
    case True
    with a have "mergePointsToSets SVO SPO
        (addSingletonPointsToSet SPO (addSingletonPointsToSet SVO s)) = Inr s1" by simp
    then show ?thesis
      by (rule grows.merged[OF grows.singleton[OF grows.singleton[OF grows.same]]])
  next
    case False
    with a show ?thesis by (auto intro: grows.intros)
  qed
  have g2: "grows s1 s'"
  proof (cases "constantExprBitCast ir SVO")
    case None
    with b show ?thesis by (auto intro: grows.intros)
  next
    case (Some RHS)
    with b obtain s2 where
      "mergePointsToSets RHS SPO
         (addSingletonPointsToSet SPO (addSingletonPointsToSet SVO (addSingletonPointsToSet RHS s1)))
       = Inr s2" "mergePointsToSets SVO SPO s2 = Inr s'"
      by (auto simp: andThen_Inr)
    then show ?thesis
      using grows.merged[OF grows.merged[OF
          grows.singleton[OF grows.singleton[OF grows.singleton[OF grows.same]]]]]
      by blast
  qed
  from a g1 g2 show thesis by (rule that)
qed

lemma storeRules_grows:
  assumes "storeRules ir SVO SPO s = Inr s'"
  shows "grows s s'"
proof (cases "isPointerTy ir SVO")
  case True
  from assms True show ?thesis
    by (rule storeRules_Inr_elim) (rule grows_trans)
next
  case False
  with assms show ?thesis by (auto simp: storeRules_def intro: grows.intros)
qed

lemma storeRules_total: "\<exists>s'. storeRules ir SVO SPO s = Inr s'"
proof (cases "isPointerTy ir SVO")
  case False
  then show ?thesis by (simp add: storeRules_def)
next
  case True
  obtain s1 where a: "(if isFunction ir SVO
      then mergePointsToSets SVO SPO (addSingletonPointsToSet SPO (addSingletonPointsToSet SVO s))
      else Inr s) = Inr s1"
    using merge_after_singletons[of SVO SPO s] by (cases "isFunction ir SVO") auto
  show ?thesis
  proof (cases "constantExprBitCast ir SVO")
    case None
    with True a show ?thesis by (simp add: storeRules_def)
  next
    case (Some RHS)
    let ?t = "addSingletonPointsToSet SPO (addSingletonPointsToSet SVO (addSingletonPointsToSet RHS s1))"
    have "RHS \<in> dom (PointsToSets ?t)" "SPO \<in> dom (PointsToSets ?t)" "SVO \<in> dom (PointsToSets ?t)"
      by (simp_all add: addSingleton_dom)
    then obtain s2 where m: "mergePointsToSets RHS SPO ?t = Inr s2"
        and d: "SPO \<in> dom (PointsToSets s2)" "SVO \<in> dom (PointsToSets s2)"
      using merge_total[of RHS ?t SPO] merge_dom_mono[of RHS SPO ?t] by blast
    from d obtain s3 where "mergePointsToSets SVO SPO s2 = Inr s3"
      using merge_total[of SVO s2 SPO] by blast
    with True a Some m show ?thesis by (simp add: storeRules_def)
  qed
qed

lemma storeRules_function_same:
  assumes "invariants s" "isPointerTy ir SVO" "isFunction ir SVO"
    and "storeRules ir SVO SPO s = Inr s'"
  shows "\<exists>h. PointsToSets s' SVO = Some h \<and> PointsToSets s' SPO = Some h"
  using assms(4,2)
proof (rule storeRules_Inr_elim)
  fix s1 assume a: "(if isFunction ir SVO
      then mergePointsToSets SVO SPO (addSingletonPointsToSet SPO (addSingletonPointsToSet SVO s))
      else Inr s) = Inr s1" and g: "grows s s1" "grows s1 s'"
  let ?t = "addSingletonPointsToSet SPO (addSingletonPointsToSet SVO s)"
  from a assms(3) have m: "mergePointsToSets SVO SPO ?t = Inr s1" by simp
  have "invariants ?t" using assms(1) by (intro addSingleton_invariants)
  from merge_same_after[OF this m] obtain h where
    h: "PointsToSets s1 SVO = Some h" "PointsToSets s1 SPO = Some h" by blast
  have "invariants s1" using g(1) assms(1) by (rule grows_invariants)
  from grows_keeps_same[OF g(2) this h] show ?thesis .
qed

text \<open>One instruction.\<close>

lemma visitInstruction_Inr_elim:
  assumes "visitInstruction ir I (P, s) = Inr (P', s')"
  obtains "(case ikind I of StoreInst SVO SPO \<Rightarrow> storeRules ir SVO SPO s | _ \<Rightarrow> Inr s) = Inr s'"
  using assms by (auto simp: visitInstruction_def Let_def andThen_Inr)

lemma visitInstruction_grows:
  assumes "visitInstruction ir I (P, s) = Inr (P', s')"
  shows "grows s s'"
  using assms
proof (rule visitInstruction_Inr_elim)
  assume "(case ikind I of StoreInst SVO SPO \<Rightarrow> storeRules ir SVO SPO s | _ \<Rightarrow> Inr s) = Inr s'"
  then show ?thesis
    by (cases "ikind I") (auto intro: storeRules_grows grows.intros)
qed

lemma visitInstruction_total: "\<exists>st'. visitInstruction ir I st = Inr st'"
proof (cases st)
  case (Pair P s)
  show ?thesis
  proof (cases "ikind I")
    case (StoreInst SVO SPO)
    from storeRules_total[of ir SVO SPO s] obtain s' where "storeRules ir SVO SPO s = Inr s'" ..
    with Pair StoreInst show ?thesis by (simp add: visitInstruction_def Let_def)
  qed (simp_all add: Pair visitInstruction_def Let_def)
qed

lemma visitInstruction_store_function:
  assumes "visitInstruction ir I (P, s) = Inr (P', s')" "ikind I = StoreInst SVO SPO"
    and "invariants s" "isPointerTy ir SVO" "isFunction ir SVO"
  shows "\<exists>h. PointsToSets s' SVO = Some h \<and> PointsToSets s' SPO = Some h"
  using assms(1)
proof (rule visitInstruction_Inr_elim)
  assume "(case ikind I of StoreInst SVO SPO \<Rightarrow> storeRules ir SVO SPO s | _ \<Rightarrow> Inr s) = Inr s'"
  with assms(2) have "storeRules ir SVO SPO s = Inr s'" by simp
  from storeRules_function_same[OF assms(3,4,5) this] show ?thesis .
qed

lemma foldE_visitInstruction_grows:
  assumes "foldE (visitInstruction ir) Is (P, s) = Inr (P', s')"
  shows "grows s s'"
proof -
  have "grows s (snd (P', s'))"
  proof (rule foldE_invariant[where P = "\<lambda>st. grows s (snd st)", OF assms])
    show "grows s (snd (P, s))" by (simp add: grows.same)
  next
    fix x t t' assume "grows s (snd t)" "visitInstruction ir x t = Inr t'"
    then show "grows s (snd t')"
      by (cases t; cases t') (auto dest: visitInstruction_grows intro: grows_trans)
  qed
  then show ?thesis by simp
qed

lemma foldE_visitInstruction_total: "\<exists>st'. foldE (visitInstruction ir) Is st = Inr st'"
  using foldE_total[where P = "\<lambda>_. True" and f = "visitInstruction ir" and xs = Is and s = st]
    visitInstruction_total by blast

text \<open>The singletons of the pointers and the pairwise loop.\<close>

lemma fold_addSingleton_grows: "grows s (fold addSingletonPointsToSet Ps s)"
proof (induction Ps arbitrary: s)
  case Nil
  show ?case by (simp add: grows.same)
next
  case (Cons V Ps)
  have "grows s (addSingletonPointsToSet V s)" by (intro grows.intros)
  with Cons[of "addSingletonPointsToSet V s"] show ?case by (auto intro: grows_trans)
qed

lemma fold_addSingleton_dom:
  "dom (PointsToSets (fold addSingletonPointsToSet Ps s)) = set Ps \<union> dom (PointsToSets s)"
  by (induction Ps arbitrary: s) (auto simp: addSingleton_dom)

lemma disambiguatePair_grows:
  "disambiguatePair ir F I1 I2 s = Inr s' \<Longrightarrow> grows s s'"
  by (cases "aaAlias ir F I1 I2") (auto simp: disambiguatePair_def intro: grows.intros)

lemma disambiguatePair_total:
  "I1 \<in> dom (PointsToSets s) \<Longrightarrow> I2 \<in> dom (PointsToSets s) \<Longrightarrow>
   \<exists>s'. disambiguatePair ir F I1 I2 s = Inr s'"
  by (cases "aaAlias ir F I1 I2") (auto simp: disambiguatePair_def intro: merge_total)

lemma foldE_disambiguatePair_grows:
  assumes "foldE (disambiguatePair ir F I1) Ps s = Inr s'"
  shows "grows s s'"
  by (rule foldE_invariant[where P = "grows s", OF assms])
    (auto intro: grows.same grows_trans dest: disambiguatePair_grows)

lemma foldE_disambiguatePair_total:
  assumes "I1 \<in> dom (PointsToSets s)" "set Ps \<subseteq> dom (PointsToSets s)"
  shows "\<exists>s'. foldE (disambiguatePair ir F I1) Ps s = Inr s'"
proof -
  have "\<exists>s'. foldE (disambiguatePair ir F I1) Ps s = Inr s' \<and> grows s s'"
  proof (rule foldE_total[where P = "grows s"])
    show "grows s s" by (rule grows.same)
  next
    fix x t assume x: "x \<in> set Ps" and g: "grows s t"
    from grows_dom_mono[OF g] assms x have "I1 \<in> dom (PointsToSets t)" "x \<in> dom (PointsToSets t)"
      by blast+
    from disambiguatePair_total[OF this] obtain t' where t': "disambiguatePair ir F I1 x t = Inr t'"
      by blast
    with g show "\<exists>t'. disambiguatePair ir F I1 x t = Inr t' \<and> grows s t'"
      by (auto dest: disambiguatePair_grows intro: grows_trans)
  qed
  then show ?thesis by blast
qed

lemma disambiguate_grows:
  "disambiguate ir F earlier rest s = Inr s' \<Longrightarrow> grows s s'"
proof (induction rest arbitrary: earlier s)
  case Nil
  then show ?case by (simp add: grows.same)
next
  case (Cons I1 rest)
  from Cons.prems obtain t where t: "foldE (disambiguatePair ir F I1) earlier s = Inr t"
      "disambiguate ir F (earlier @ [I1]) rest t = Inr s'"
    by (auto split: sum.splits)
  from foldE_disambiguatePair_grows[OF t(1)] Cons.IH[OF t(2)] show ?case
    by (auto intro: grows_trans)
qed

lemma disambiguate_total:
  "set earlier \<union> set rest \<subseteq> dom (PointsToSets s) \<Longrightarrow>
   \<exists>s'. disambiguate ir F earlier rest s = Inr s'"
proof (induction rest arbitrary: earlier s)
  case Nil
  then show ?case by simp
next
  case (Cons I1 rest)
  from Cons.prems have "I1 \<in> dom (PointsToSets s)" "set earlier \<subseteq> dom (PointsToSets s)" by auto
  from foldE_disambiguatePair_total[OF this] obtain t where
    t: "foldE (disambiguatePair ir F I1) earlier s = Inr t" by blast
  from foldE_disambiguatePair_grows[OF t] have "dom (PointsToSets s) \<subseteq> dom (PointsToSets t)"
    by (rule grows_dom_mono)
  moreover from Cons.prems have "set (earlier @ [I1]) \<union> set rest \<subseteq> dom (PointsToSets s)"
    by simp
  ultimately have "set (earlier @ [I1]) \<union> set rest \<subseteq> dom (PointsToSets t)"
    by (rule order_trans[rotated])
  from Cons.IH[OF this] t show ?case by simp
qed

lemma computeFunctions_Inr_elim:
  assumes "computeFunctionsPointsToSet ir Fp s = Inr s'"
  obtains (skipped) "s' = s" "Fp = None \<or> (\<exists>F. Fp = Some F \<and> Some (fval F) \<in> AnalyzedFunctions s)"
  | (analyzed) F P1 s1 where "Fp = Some F" "Some (fval F) \<notin> AnalyzedFunctions s"
      "foldE (visitInstruction ir) (insts F)
         (fold (\<lambda>A P. if isPointerTy ir A then sv_insert A P else P) (args F) [],
          s\<lparr>AnalyzedFunctions := insert (Some (fval F)) (AnalyzedFunctions s)\<rparr>) = Inr (P1, s1)"
      "disambiguate ir (fval F) [] (fold sv_insert (parentGlobals F) P1)
         (fold addSingletonPointsToSet (fold sv_insert (parentGlobals F) P1) s1) = Inr s'"
proof (cases Fp)
  case None
  with assms show ?thesis by (intro skipped) (simp_all add: computeFunctionsPointsToSet_def)
next
  case (Some F)
  show ?thesis
  proof (cases "Some (fval F) \<in> AnalyzedFunctions s")
    case True
    with assms Some show ?thesis by (intro skipped) (simp_all add: computeFunctionsPointsToSet_def)
  next
    case False
    with assms Some obtain st where
      st: "foldE (visitInstruction ir) (insts F)
         (fold (\<lambda>A P. if isPointerTy ir A then sv_insert A P else P) (args F) [],
          s\<lparr>AnalyzedFunctions := insert (Some (fval F)) (AnalyzedFunctions s)\<rparr>) = Inr st"
      and d: "(case st of (P1, s1) \<Rightarrow>
           disambiguate ir (fval F) [] (fold sv_insert (parentGlobals F) P1)
             (fold addSingletonPointsToSet (fold sv_insert (parentGlobals F) P1) s1)) = Inr s'"
      by (auto simp: computeFunctionsPointsToSet_def Let_def andThen_Inr)
    obtain P1 s1 where p: "st = (P1, s1)" by (cases st)
    from st d show ?thesis unfolding p by (intro analyzed[OF Some False]) simp_all
  qed
qed

lemma computeFunctions_marked_grows:
  assumes "computeFunctionsPointsToSet ir Fp s = Inr s'"
  obtains A where "grows (s\<lparr>AnalyzedFunctions := A\<rparr>) s'"
    "A = AnalyzedFunctions s \<union> (case Fp of None \<Rightarrow> {} | Some F \<Rightarrow> {Some (fval F)})"
  using assms
proof (cases rule: computeFunctions_Inr_elim)
  case skipped
  have "grows (s\<lparr>AnalyzedFunctions := AnalyzedFunctions s\<rparr>) s'"
    using skipped(1) by (simp add: grows.same)
  moreover have "AnalyzedFunctions s =
      AnalyzedFunctions s \<union> (case Fp of None \<Rightarrow> {} | Some F \<Rightarrow> {Some (fval F)})"
    using skipped(2) by auto
  ultimately show ?thesis by (rule that)
next
  case (analyzed F P1 s1)
  have "grows (s\<lparr>AnalyzedFunctions := insert (Some (fval F)) (AnalyzedFunctions s)\<rparr>) s'"
    using foldE_visitInstruction_grows[OF analyzed(3)]
      fold_addSingleton_grows[of s1 "fold sv_insert (parentGlobals F) P1"]
      disambiguate_grows[OF analyzed(4)]
    by (blast intro: grows_trans)
  then show ?thesis using analyzed(1) by (intro that[of "insert (Some (fval F)) (AnalyzedFunctions s)"]) auto
qed


lemma computeFunctions_dom_mono:
  assumes "computeFunctionsPointsToSet ir Fp s = Inr s'"
  shows "dom (PointsToSets s) \<subseteq> dom (PointsToSets s')"
  using assms
proof (rule computeFunctions_marked_grows)
  fix A assume "grows (s\<lparr>AnalyzedFunctions := A\<rparr>) s'"
  from grows_dom_mono[OF this] show ?thesis by simp
qed

lemma computeFunctions_analyzed:
  assumes "computeFunctionsPointsToSet ir Fp s = Inr s'"
  shows "AnalyzedFunctions s' =
           AnalyzedFunctions s \<union> (case Fp of None \<Rightarrow> {} | Some F \<Rightarrow> {Some (fval F)})"
  using assms
proof (rule computeFunctions_marked_grows)
  fix A assume "grows (s\<lparr>AnalyzedFunctions := A\<rparr>) s'"
    and "A = AnalyzedFunctions s \<union> (case Fp of None \<Rightarrow> {} | Some F \<Rightarrow> {Some (fval F)})"
  with grows_analyzed[of "s\<lparr>AnalyzedFunctions := A\<rparr>" s'] show ?thesis by simp
qed

lemma computeFunctions_total: "\<exists>s'. computeFunctionsPointsToSet ir Fp s = Inr s'"
proof (cases Fp)
  case None
  then show ?thesis by (simp add: computeFunctionsPointsToSet_def)
next
  case (Some F)
  show ?thesis
  proof (cases "Some (fval F) \<in> AnalyzedFunctions s")
    case True
    with Some show ?thesis by (simp add: computeFunctionsPointsToSet_def)
  next
    case False
    obtain st where st: "foldE (visitInstruction ir) (insts F)
         (fold (\<lambda>A P. if isPointerTy ir A then sv_insert A P else P) (args F) [],
          s\<lparr>AnalyzedFunctions := insert (Some (fval F)) (AnalyzedFunctions s)\<rparr>) = Inr st"
      using foldE_visitInstruction_total by blast
    obtain P1 s1 where p: "st = (P1, s1)" by (cases st)
    let ?Ps = "fold sv_insert (parentGlobals F) P1"
    have "set [] \<union> set ?Ps \<subseteq> dom (PointsToSets (fold addSingletonPointsToSet ?Ps s1))"
      by (simp add: fold_addSingleton_dom)
    from disambiguate_total[OF this] obtain s' where
      "disambiguate ir (fval F) [] ?Ps (fold addSingletonPointsToSet ?Ps s1) = Inr s'" by blast
    with Some False st p show ?thesis by (simp add: computeFunctionsPointsToSet_def Let_def)
  qed
qed

text \<open>The store of a function.\<close>

lemma foldE_split:
  assumes "foldE f (xs @ x # ys) s = Inr s'"
  obtains t u where "foldE f xs s = Inr t" "f x t = Inr u" "foldE f ys u = Inr s'"
  using assms by (auto simp: foldE_append split: sum.splits)

text \<open>
  Claim C7. In a state that satisfies the invariants, the analysis of a function that was
  not analyzed yet, and that holds a store instruction whose stored value is a function,
  returns, and afterwards the stored function and the pointer operand are bound to one
  set and are members of it, whatever the alias oracle answers.
\<close>

theorem store_of_function_merges:
  assumes "invariants s" and "Some (fval F) \<notin> AnalyzedFunctions s"
    and "I \<in> set (insts F)" and "ikind I = StoreInst SVO SPO"
    and "isPointerTy ir SVO" and "isFunction ir SVO"
  shows "\<exists>s' h. computeFunctionsPointsToSet ir (Some F) s = Inr s' \<and>
           PointsToSets s' SVO = Some h \<and> PointsToSets s' SPO = Some h \<and>
           SVO \<in> Heap s' h \<and> SPO \<in> Heap s' h"
proof -
  obtain s' where r: "computeFunctionsPointsToSet ir (Some F) s = Inr s'"
    using computeFunctions_total by blast
  from r show ?thesis
  proof (cases rule: computeFunctions_Inr_elim)
    case skipped
    with assms(2) show ?thesis by simp
  next
    case (analyzed F' P1 s1)
    then have F': "F' = F" by simp
    let ?s0 = "s\<lparr>AnalyzedFunctions := insert (Some (fval F)) (AnalyzedFunctions s)\<rparr>"
    let ?P0 = "fold (\<lambda>A P. if isPointerTy ir A then sv_insert A P else P) (args F) []"
    from assms(3) obtain pre post where sp: "insts F = pre @ I # post"
      by (auto simp: in_set_conv_decomp)
    from analyzed(3)[unfolded F' sp] obtain t u where
      t: "foldE (visitInstruction ir) pre (?P0, ?s0) = Inr t"
      and u: "visitInstruction ir I t = Inr u"
      and e: "foldE (visitInstruction ir) post u = Inr (P1, s1)"
      by (rule foldE_split)
    obtain Pt st where pt: "t = (Pt, st)" by (cases t)
    obtain Pu su where pu: "u = (Pu, su)" by (cases u)
    have i0: "invariants ?s0" using assms(1) by simp
    have it: "invariants st"
      using grows_invariants[OF foldE_visitInstruction_grows[OF t[unfolded pt]] i0] .
    from visitInstruction_store_function[OF u[unfolded pt pu] assms(4) it assms(5,6)]
    obtain h where h: "PointsToSets su SVO = Some h" "PointsToSets su SPO = Some h" by blast
    have iu: "invariants su"
      using grows_invariants[OF visitInstruction_grows[OF u[unfolded pt pu]] it] .
    have "grows su s'"
      using foldE_visitInstruction_grows[OF e[unfolded pu]]
        fold_addSingleton_grows[of s1 "fold sv_insert (parentGlobals F) P1"]
        disambiguate_grows[OF analyzed(4)[unfolded F']]
      by (blast intro: grows_trans)
    from grows_keeps_same[OF this iu h] grows_invariants[OF this iu]
    obtain h' where h': "PointsToSets s' SVO = Some h'" "PointsToSets s' SPO = Some h'"
      and i: "invariants s'" by blast
    then have "SVO \<in> Heap s' h'" "SPO \<in> Heap s' h'"
      by (auto simp: invariants_def reflexive_def)
    with r h' show ?thesis by blast
  qed
qed

lemma foldE_accumulate:
  assumes "foldE f xs s = Inr s'"
    and "\<And>x t t'. x \<in> set xs \<Longrightarrow> f x t = Inr t' \<Longrightarrow> g t' = g t \<union> d x"
  shows "g s' = g s \<union> \<Union> (d ` set xs)"
  using assms
proof (induction xs arbitrary: s)
  case Nil
  then show ?case by simp
next
  case (Cons x xs)
  from Cons.prems(1) obtain t where t: "f x s = Inr t" "foldE f xs t = Inr s'"
    by (auto split: sum.splits)
  have "g t = g s \<union> d x" using Cons.prems(2)[of x s t] t(1) by simp
  moreover have "g s' = g t \<union> \<Union> (d ` set xs)"
  proof (rule Cons.IH[OF t(2)])
    fix y u u' assume "y \<in> set xs" "f y u = Inr u'"
    then show "g u' = g u \<union> d y" using Cons.prems(2)[of y u u'] by simp
  qed
  ultimately show ?case by auto
qed

lemma visitUser_Inr_elim:
  assumes "visitUser ir G U s = Inr s'"
  obtains (skipped) "s' = s" "hostOf U = {}"
  | (visited) I Fp s1 where "U = InstUser I (Some Fp)"
      "computeFunctionsPointsToSet ir Fp s = Inr s1" "grows s1 s'"
proof (cases U)
  case (OtherUser x)
  with assms show ?thesis by (intro skipped) (simp_all add: visitUser_def hostOf_def)
next
  case (InstUser I parent)
  show ?thesis
  proof (cases parent)
    case None
    with assms InstUser show ?thesis by (intro skipped) (simp_all add: visitUser_def hostOf_def)
  next
    case (Some Fp)
    with assms InstUser obtain s1 where
      c: "computeFunctionsPointsToSet ir Fp s = Inr s1"
      and m: "(if \<not> isFunction ir G \<and> isInterestingPointer ir (ival I)
               then mergePointsToSets (ival I) G s1
               else (case ikind I of
                       StoreInst SVO SPO \<Rightarrow>
                         if isInterestingPointer ir SVO
                         then mergePointsToSets SVO SPO s1 else Inr s1
                     | _ \<Rightarrow> Inr s1)) = Inr s'"
      by (auto simp: visitUser_def andThen_Inr)
    have "grows s1 s'"
    proof (cases "\<not> isFunction ir G \<and> isInterestingPointer ir (ival I)")
      case True
      with m have "mergePointsToSets (ival I) G s1 = Inr s'" by simp
      then show ?thesis by (rule grows.merged[OF grows.same])
    next
      case False
      with m show ?thesis
        by (cases "ikind I") (auto split: if_splits intro: grows.same grows.merged[OF grows.same])
    qed
    with InstUser Some c show ?thesis by (intro visited) simp_all
  qed
qed



lemma visitUser_analyzed:
  assumes "visitUser ir G U s = Inr s'"
  shows "AnalyzedFunctions s' = AnalyzedFunctions s \<union> hostOf U"
  using assms
proof (cases rule: visitUser_Inr_elim)
  case skipped
  then show ?thesis by simp
next
  case (visited I Fp s1)
  from computeFunctions_analyzed[OF visited(2)] grows_analyzed[OF visited(3)] visited(1)
  show ?thesis by (cases Fp) (simp_all add: hostOf_def)
qed

lemma computeValues_Inr_elim:
  assumes "computeValuesPointsToSet ir V s = Inr s'"
  obtains (uninteresting) "\<not> isInterestingPointer ir V" "s' = s"
  | (global) "isInterestingPointer ir V" "isGlobalObject ir V"
      "foldE (visitUser ir V) (users ir V) (addSingletonPointsToSet V s) = Inr s'"
  | (local) "isInterestingPointer ir V" "\<not> isGlobalObject ir V"
      "computeFunctionsPointsToSet ir (retrieveFunction ir V) (addSingletonPointsToSet V s) = Inr s'"
  using assms by (auto simp: computeValuesPointsToSet_def Let_def split: if_splits)



lemma computeValues_analyzed:
  assumes "computeValuesPointsToSet ir V s = Inr s'"
  shows "AnalyzedFunctions s' = AnalyzedFunctions s \<union> analyzedFor ir V"
  using assms
proof (cases rule: computeValues_Inr_elim)
  case uninteresting
  then show ?thesis by (simp add: analyzedFor_def)
next
  case global
  have "AnalyzedFunctions s' =
      AnalyzedFunctions (addSingletonPointsToSet V s) \<union> \<Union> (hostOf ` set (users ir V))"
    by (rule foldE_accumulate[OF global(3)]) (rule visitUser_analyzed)
  with global(1,2) show ?thesis by (simp add: analyzedFor_def addSingleton_analyzed)
next
  case local
  from computeFunctions_analyzed[OF local(3)] local(1,2) show ?thesis
    by (simp add: analyzedFor_def addSingleton_analyzed)
qed

lemma foldE_error:
  "foldE f xs s = Inl e \<Longrightarrow> \<exists>x t. f x t = Inl e"
  by (induction xs arbitrary: s) (auto split: sum.splits)





section \<open>The driver returns on a well-formed IR\<close>

lemma set_sv_insert [simp]: "set (sv_insert x xs) = insert x (set xs)"
  by (auto simp: sv_insert_def)

lemma set_fold_sv_insert [simp]: "set (fold sv_insert xs P) = set P \<union> set xs"
  by (induction xs arbitrary: P) auto

lemma set_fold_insertInteresting [simp]:
  "set (fold (insertInteresting ir) xs P) = set P \<union> {x \<in> set xs. isInterestingPointer ir x}"
  by (induction xs arbitrary: P) (auto simp: insertInteresting_def)

lemma visitInstruction_pointers:
  assumes "visitInstruction ir I (P, s) = Inr (P', s')"
  shows "set P \<union> boundBy ir I \<subseteq> set P'"
proof -
  from assms have "P' =
     (case ikind I of
        CallBase Callee DataOps \<Rightarrow>
          fold (insertInteresting ir) DataOps
            (if \<not> isFunction ir Callee \<and> isInterestingPointer ir Callee
             then sv_insert Callee (if isPointerTy ir (ival I) then sv_insert (ival I) P else P)
             else (if isPointerTy ir (ival I) then sv_insert (ival I) P else P))
      | StoreInst SVO SPO \<Rightarrow>
          fold (insertInteresting ir) [SVO, SPO]
            (if isPointerTy ir (ival I) then sv_insert (ival I) P else P)
      | OtherInst Ops \<Rightarrow>
          fold (insertInteresting ir) Ops
            (if isPointerTy ir (ival I) then sv_insert (ival I) P else P))"
    by (auto simp: visitInstruction_def Let_def andThen_Inr)
  then show ?thesis
    by (cases "ikind I") (auto simp: boundBy_def insertInteresting_def split: if_splits)
qed

lemma foldE_visitInstruction_pointers:
  "foldE (visitInstruction ir) Is (P, s) = Inr (P', s') \<Longrightarrow>
   set P \<union> \<Union> (boundBy ir ` set Is) \<subseteq> set P'"
proof (induction Is arbitrary: P s)
  case Nil
  then show ?case by simp
next
  case (Cons I Is)
  from Cons.prems obtain P1 s1 where
    v: "visitInstruction ir I (P, s) = Inr (P1, s1)"
    and r: "foldE (visitInstruction ir) Is (P1, s1) = Inr (P', s')"
    by (auto split: sum.splits)
  from visitInstruction_pointers[OF v] Cons.IH[OF r] show ?case by auto
qed

lemma computeFunctions_binds:
  assumes "computeFunctionsPointsToSet ir (Some F) s = Inr s'"
    and "Some (fval F) \<notin> AnalyzedFunctions s"
  shows "\<Union> (boundBy ir ` set (insts F)) \<subseteq> dom (PointsToSets s')"
  using assms(1)
proof (cases rule: computeFunctions_Inr_elim)
  case skipped
  with assms(2) show ?thesis by simp
next
  case (analyzed F' P1 s1)
  then have F': "F' = F" by simp
  let ?Ps = "fold sv_insert (parentGlobals F) P1"
  from foldE_visitInstruction_pointers[OF analyzed(3)[unfolded F']]
  have "\<Union> (boundBy ir ` set (insts F)) \<subseteq> set ?Ps" by auto
  also have "\<dots> \<subseteq> dom (PointsToSets (fold addSingletonPointsToSet ?Ps s1))"
    by (simp add: fold_addSingleton_dom)
  also have "\<dots> \<subseteq> dom (PointsToSets s')"
    using disambiguate_grows[OF analyzed(4)[unfolded F']] by (rule grows_dom_mono)
  finally show ?thesis .
qed

lemma grows_analyzedBound:
  assumes "grows s t" "analyzedBound ir s"
  shows "analyzedBound ir t"
  unfolding analyzedBound_def
proof (intro ballI impI)
  fix F assume "F \<in> knownFunctions ir" "Some (fval F) \<in> AnalyzedFunctions t"
  with assms(2) grows_analyzed[OF assms(1)]
  have "\<Union> (boundBy ir ` set (insts F)) \<subseteq> dom (PointsToSets s)"
    unfolding analyzedBound_def by blast
  with grows_dom_mono[OF assms(1)] show "\<Union> (boundBy ir ` set (insts F)) \<subseteq> dom (PointsToSets t)"
    by (rule order_trans[rotated])
qed

lemma computeFunctions_analyzedBound:
  assumes "computeFunctionsPointsToSet ir Fp s = Inr s'" "analyzedBound ir s"
    and "inj_on fval (knownFunctions ir)" and "\<And>F. Fp = Some F \<Longrightarrow> F \<in> knownFunctions ir"
  shows "analyzedBound ir s'"
  unfolding analyzedBound_def
proof (intro ballI impI)
  fix F' assume k: "F' \<in> knownFunctions ir" and a: "Some (fval F') \<in> AnalyzedFunctions s'"
  show "\<Union> (boundBy ir ` set (insts F')) \<subseteq> dom (PointsToSets s')"
  proof (cases "Some (fval F') \<in> AnalyzedFunctions s")
    case True
    with assms(2) k have "\<Union> (boundBy ir ` set (insts F')) \<subseteq> dom (PointsToSets s)"
      unfolding analyzedBound_def by blast
    with computeFunctions_dom_mono[OF assms(1)] show ?thesis by (rule order_trans[rotated])
  next
    case False
    with a computeFunctions_analyzed[OF assms(1)] obtain F where
      F: "Fp = Some F" "fval F' = fval F" by (cases Fp) auto
    with assms(3) assms(4)[OF F(1)] k have "F' = F" by (auto dest: inj_onD)
    with False F(1) assms(1) computeFunctions_binds[of ir F s s'] show ?thesis by simp
  qed
qed

lemma visitUser_total:
  assumes "wellFormedIR ir" "analyzedBound ir s" "U \<in> set (users ir G)"
    and "G \<in> dom (PointsToSets s)"
  shows "\<exists>s'. visitUser ir G U s = Inr s' \<and> analyzedBound ir s' \<and> G \<in> dom (PointsToSets s')"
proof (cases U)
  case (OtherUser x)
  with assms show ?thesis by (simp add: visitUser_def)
next
  case (InstUser I parent)
  show ?thesis
  proof (cases parent)
    case None
    with assms InstUser show ?thesis by (simp add: visitUser_def)
  next
    case (Some Fp)
    from assms(1,3) InstUser Some obtain F where F: "Fp = Some F" "I \<in> set (insts F)"
      and st: "\<And>SVO SPO. ikind I = StoreInst SVO SPO \<Longrightarrow> isInterestingPointer ir SVO \<Longrightarrow>
        isInterestingPointer ir SPO"
      unfolding wellFormedIR_def by blast
    from assms(1) have inj: "inj_on fval (knownFunctions ir)"
      and ty: "\<And>V. isInterestingPointer ir V \<Longrightarrow> isPointerTy ir V"
      unfolding wellFormedIR_def by blast+
    from assms(3) InstUser Some F have k: "F \<in> knownFunctions ir"
      by (auto simp: knownFunctions_def)
    obtain s1 where c: "computeFunctionsPointsToSet ir (Some F) s = Inr s1"
      using computeFunctions_total by blast
    have b1: "analyzedBound ir s1"
      by (rule computeFunctions_analyzedBound[OF c assms(2) inj]) (use k in simp)
    have "Some (fval F) \<in> AnalyzedFunctions s1"
      using computeFunctions_analyzed[OF c] by simp
    with b1 k F(2) have bI: "boundBy ir I \<subseteq> dom (PointsToSets s1)"
      unfolding analyzedBound_def by blast
    have G1: "G \<in> dom (PointsToSets s1)"
      using computeFunctions_dom_mono[OF c] assms(4) by blast
    have "\<exists>s'. (if \<not> isFunction ir G \<and> isInterestingPointer ir (ival I)
               then mergePointsToSets (ival I) G s1
               else (case ikind I of
                       StoreInst SVO SPO \<Rightarrow>
                         if isInterestingPointer ir SVO
                         then mergePointsToSets SVO SPO s1 else Inr s1
                     | _ \<Rightarrow> Inr s1)) = Inr s' \<and> grows s1 s'"
    proof (cases "\<not> isFunction ir G \<and> isInterestingPointer ir (ival I)")
      case True
      with ty bI have "ival I \<in> dom (PointsToSets s1)" by (auto simp: boundBy_def)
      from merge_total[OF this G1] True show ?thesis
        by (auto intro: grows.merged[OF grows.same])
    next
      case False
      show ?thesis
      proof (cases "ikind I")
        case (StoreInst SVO SPO)
        show ?thesis
        proof (cases "isInterestingPointer ir SVO")
          case True
          with st[OF StoreInst] bI StoreInst
          have "SVO \<in> dom (PointsToSets s1)" "SPO \<in> dom (PointsToSets s1)"
            by (auto simp: boundBy_def)
          from merge_total[OF this] False StoreInst True show ?thesis
            by (auto intro: grows.merged[OF grows.same])
        next
          case n: False
          with False StoreInst show ?thesis by (auto intro: grows.same)
        qed
      qed (use False in \<open>auto intro: grows.same\<close>)
    qed
    then obtain s' where m: "(if \<not> isFunction ir G \<and> isInterestingPointer ir (ival I)
               then mergePointsToSets (ival I) G s1
               else (case ikind I of
                       StoreInst SVO SPO \<Rightarrow>
                         if isInterestingPointer ir SVO
                         then mergePointsToSets SVO SPO s1 else Inr s1
                     | _ \<Rightarrow> Inr s1)) = Inr s'" and g: "grows s1 s'" by blast
    from c m InstUser Some F(1) have "visitUser ir G U s = Inr s'" by (simp add: visitUser_def)
    moreover have "analyzedBound ir s'" using g b1 by (rule grows_analyzedBound)
    moreover have "G \<in> dom (PointsToSets s')" using grows_dom_mono[OF g] G1 by blast
    ultimately show ?thesis by blast
  qed
qed

lemma computeValues_total:
  assumes "wellFormedIR ir" "analyzedBound ir s"
  shows "\<exists>s'. computeValuesPointsToSet ir V s = Inr s' \<and> analyzedBound ir s'"
proof (cases "isInterestingPointer ir V")
  case False
  with assms(2) show ?thesis by (simp add: computeValuesPointsToSet_def)
next
  case True
  let ?s1 = "addSingletonPointsToSet V s"
  have b1: "analyzedBound ir ?s1"
    using grows.singleton[OF grows.same] assms(2) by (rule grows_analyzedBound)
  show ?thesis
  proof (cases "isGlobalObject ir V")
    case g: True
    have "\<exists>s'. foldE (visitUser ir V) (users ir V) ?s1 = Inr s'
        \<and> (analyzedBound ir s' \<and> V \<in> dom (PointsToSets s'))"
    proof (rule foldE_total[where P = "\<lambda>t. analyzedBound ir t \<and> V \<in> dom (PointsToSets t)"])
      show "analyzedBound ir ?s1 \<and> V \<in> dom (PointsToSets ?s1)"
        using b1 by (simp add: addSingleton_dom)
    next
      fix U t assume "U \<in> set (users ir V)" "analyzedBound ir t \<and> V \<in> dom (PointsToSets t)"
      then show "\<exists>t'. visitUser ir V U t = Inr t' \<and> (analyzedBound ir t' \<and> V \<in> dom (PointsToSets t'))"
        using visitUser_total[OF assms(1), of t U V] by blast
    qed
    with True g show ?thesis by (auto simp: computeValuesPointsToSet_def Let_def)
  next
    case l: False
    obtain s' where c: "computeFunctionsPointsToSet ir (retrieveFunction ir V) ?s1 = Inr s'"
      using computeFunctions_total by blast
    from assms(1) have inj: "inj_on fval (knownFunctions ir)" unfolding wellFormedIR_def by blast
    have "analyzedBound ir s'"
      by (rule computeFunctions_analyzedBound[OF c b1 inj]) (auto simp: knownFunctions_def)
    with c True l show ?thesis by (simp add: computeValuesPointsToSet_def Let_def)
  qed
qed


lemma analyzedBound_emptyEngine: "analyzedBound ir emptyEngine"
  by (simp add: analyzedBound_def emptyEngine_def)

lemma constructModule_total:
  assumes "wellFormedIR ir" "analyzedBound ir s" "M \<in> set (getAllModules ir)"
  shows "\<exists>s'. constructModule ir lazy M s = Inr s' \<and> analyzedBound ir s'"
proof -
  have dr: "\<And>Vs t. analyzedBound ir t \<Longrightarrow>
      \<exists>t'. foldE (computeValuesPointsToSet ir) Vs t = Inr t' \<and> analyzedBound ir t'"
  proof -
    fix Vs t assume "analyzedBound ir t"
    then show "\<exists>t'. foldE (computeValuesPointsToSet ir) Vs t = Inr t' \<and> analyzedBound ir t'"
      by (rule foldE_total[where P = "analyzedBound ir"]) (rule computeValues_total[OF assms(1)])
  qed
  from dr[OF assms(2)] obtain s1 where
    s1: "foldE (computeValuesPointsToSet ir) (moduleGlobals M) s = Inr s1" "analyzedBound ir s1"
    by blast
  from dr[OF s1(2)] obtain s2 where
    s2: "foldE (computeValuesPointsToSet ir) (map fval (moduleFunctions M)) s1 = Inr s2"
      "analyzedBound ir s2" by blast
  from assms(1) have inj: "inj_on fval (knownFunctions ir)" unfolding wellFormedIR_def by blast
  have "\<exists>s'. foldE (\<lambda>F t. if \<not> isDeclaration F
                                 then computeFunctionsPointsToSet ir (Some F) t else Inr t)
                    (moduleFunctions M) s2 = Inr s' \<and> analyzedBound ir s'"
  proof (rule foldE_total[where P = "analyzedBound ir", OF s2(2)])
    fix F t assume F: "F \<in> set (moduleFunctions M)" and t: "analyzedBound ir t"
    obtain t' where c: "computeFunctionsPointsToSet ir (Some F) t = Inr t'"
      using computeFunctions_total by blast
    have "analyzedBound ir t'"
      by (rule computeFunctions_analyzedBound[OF c t inj])
        (use F assms(3) in \<open>auto simp: knownFunctions_def\<close>)
    with c t show "\<exists>t'. (if \<not> isDeclaration F
                                 then computeFunctionsPointsToSet ir (Some F) t else Inr t) = Inr t'
        \<and> analyzedBound ir t'" by auto
  qed
  with s1 s2 show ?thesis by (auto simp: constructModule_def)
qed

lemma newLLVMPointsToSet_total:
  assumes "wellFormedIR ir"
  shows "\<exists>s. newLLVMPointsToSet ir lazy = Inr s \<and> analyzedBound ir s"
  unfolding newLLVMPointsToSet_def
  by (rule foldE_total[where P = "analyzedBound ir", OF analyzedBound_emptyEngine])
    (rule constructModule_total[OF assms])


section \<open>Construction and lazy evaluation\<close>

lemma constructModule_analyzed:
  assumes "constructModule ir lazy M s = Inr s'"
  shows "AnalyzedFunctions s' = AnalyzedFunctions s \<union> analyzedAtConstruction ir lazy M"
proof -
  from assms obtain s1 s2 where
    g: "foldE (computeValuesPointsToSet ir) (moduleGlobals M) s = Inr s1"
    and f: "foldE (computeValuesPointsToSet ir) (map fval (moduleFunctions M)) s1 = Inr s2"
    and e: "(if \<not> lazy
             then foldE (\<lambda>F t. if \<not> isDeclaration F
                                 then computeFunctionsPointsToSet ir (Some F) t else Inr t)
                    (moduleFunctions M) s2
             else Inr s2) = Inr s'"
    by (auto simp: constructModule_def andThen_Inr)
  have a1: "AnalyzedFunctions s1 = AnalyzedFunctions s \<union> \<Union> (analyzedFor ir ` set (moduleGlobals M))"
    by (rule foldE_accumulate[OF g]) (rule computeValues_analyzed)
  have a2: "AnalyzedFunctions s2 =
      AnalyzedFunctions s1 \<union> \<Union> (analyzedFor ir ` set (map fval (moduleFunctions M)))"
    by (rule foldE_accumulate[OF f]) (rule computeValues_analyzed)
  have a3: "AnalyzedFunctions s' = AnalyzedFunctions s2 \<union>
      (if lazy then {} else {Some (fval F) | F. F \<in> set (moduleFunctions M) \<and> \<not> isDeclaration F})"
  proof (cases lazy)
    case True
    with e show ?thesis by simp
  next
    case False
    with e have l: "foldE (\<lambda>F t. if \<not> isDeclaration F
                                 then computeFunctionsPointsToSet ir (Some F) t else Inr t)
                    (moduleFunctions M) s2 = Inr s'" by simp
    have "AnalyzedFunctions s' = AnalyzedFunctions s2 \<union>
        \<Union> ((\<lambda>F. if \<not> isDeclaration F then {Some (fval F)} else {}) ` set (moduleFunctions M))"
    proof (rule foldE_accumulate[OF l])
      fix F t t'
      assume "(if \<not> isDeclaration F then computeFunctionsPointsToSet ir (Some F) t else Inr t) = Inr t'"
      then show "AnalyzedFunctions t' =
          AnalyzedFunctions t \<union> (if \<not> isDeclaration F then {Some (fval F)} else {})"
        by (auto split: if_splits dest: computeFunctions_analyzed)
    qed
    moreover have "\<Union> ((\<lambda>F. if \<not> isDeclaration F then {Some (fval F)} else {}) ` set (moduleFunctions M))
        = {Some (fval F) | F. F \<in> set (moduleFunctions M) \<and> \<not> isDeclaration F}"
      by (auto split: if_splits)
    ultimately show ?thesis using False by simp
  qed
  show ?thesis unfolding a3 a2 a1 analyzedAtConstruction_def by (simp add: image_Un Un_assoc)
qed

text \<open>
  Claim C3, as amended. Whatever the flag, the constructor runs the driver on every
  global and every function of every module, and the driver analyzes the functions of the
  instructions that use an interesting global object. On a well-formed IR the constructor
  returns. With lazy evaluation the functions analyzed at construction are exactly these;
  without it they are these and every function that is not a declaration.
\<close>

theorem construction_analyzes:
  "(wellFormedIR ir \<longrightarrow> (\<exists>t. newLLVMPointsToSet ir UseLazyEvaluation = Inr t)) \<and>
   (newLLVMPointsToSet ir UseLazyEvaluation = Inr s \<longrightarrow>
      AnalyzedFunctions s =
        \<Union> (analyzedAtConstruction ir UseLazyEvaluation ` set (getAllModules ir)))"
proof (intro conjI impI)
  assume "wellFormedIR ir"
  then show "\<exists>t. newLLVMPointsToSet ir UseLazyEvaluation = Inr t"
    using newLLVMPointsToSet_total[of ir UseLazyEvaluation] by blast
next
  assume r: "newLLVMPointsToSet ir UseLazyEvaluation = Inr s"
  have "AnalyzedFunctions s = AnalyzedFunctions emptyEngine \<union>
      \<Union> (analyzedAtConstruction ir UseLazyEvaluation ` set (getAllModules ir))"
    by (rule foldE_accumulate[OF r[unfolded newLLVMPointsToSet_def]])
      (rule constructModule_analyzed)
  then show "AnalyzedFunctions s =
      \<Union> (analyzedAtConstruction ir UseLazyEvaluation ` set (getAllModules ir))"
    by (simp add: emptyEngine_def)
qed

lemmas eval_defs = computeFunctionsPointsToSet_def visitInstruction_def storeRules_def
  mergePointsToSets_def absorb_def addSingletonPointsToSet_def make_shared_def sv_insert_def
  insertInteresting_def disambiguatePair_def emptyEngine_def Let_def

lemmas driver_defs = newLLVMPointsToSet_def constructModule_def computeValuesPointsToSet_def
  visitUser_def

lemma callIR_lazy: "newLLVMPointsToSet callIR True = Inr callEngine"
  by (simp add: driver_defs eval_defs callIR_def callMain_def callFoo_def callEngine_def fun_eq_iff)

text \<open>
  With lazy evaluation, the constructor analyzes \<^verbatim>\<open>@main\<close> of the module
  \<open>callIR\<close>, because \<^verbatim>\<open>@main\<close> calls \<^verbatim>\<open>@foo\<close>.
\<close>

theorem lazy_construction_counterexample:
  "newLLVMPointsToSet callIR True = Inr callEngine \<and> AnalyzedFunctions callEngine = {Some 4} \<and>
   fval callMain = 4 \<and> callMain \<in> set (moduleFunctions (hd (getAllModules callIR)))"
  using callIR_lazy by (simp add: callEngine_def callMain_def callIR_def)

lemma wellFormedIR_callIR: "wellFormedIR callIR"
  unfolding wellFormedIR_def knownFunctions_def
  by (auto simp: callIR_def callMain_def callFoo_def inj_on_def split: if_splits)

theorem construction_analyzes_witness:
  "wellFormedIR callIR \<and> newLLVMPointsToSet callIR True = Inr callEngine \<and>
   \<Union> (analyzedAtConstruction callIR True ` set (getAllModules callIR)) = {Some 4} \<and>
   AnalyzedFunctions callEngine = {Some 4}"
  using construction_analyzes[of callIR True callEngine] callIR_lazy wellFormedIR_callIR
  by (simp add: callEngine_def)

section \<open>Merging two engines\<close>

lemma allocasIR_NoAlias:
  "computeFunctionsPointsToSet (allocasIR NoAlias) (Some allocasMain) emptyEngine = Inr separateAllocas"
  by (simp add: eval_defs allocasIR_def allocasMain_def separateAllocas_def fun_eq_iff)

lemma allocasIR_MayAlias:
  "computeFunctionsPointsToSet (allocasIR MayAlias) (Some allocasMain) emptyEngine = Inr mergedAllocas"
  by (simp add: eval_defs allocasIR_def allocasMain_def mergedAllocas_def fun_eq_iff) auto

lemma mergeWithEntry_keeps_bindings:
  "PointsToSets s V = Some h \<Longrightarrow> PointsToSets (mergeWithEntry ord Other K s) V = Some h"
  by (auto simp: mergeWithEntry_def make_shared_def Let_def split: option.splits)

lemma fold_mergeWithEntry_keeps_bindings:
  "PointsToSets s V = Some h \<Longrightarrow> PointsToSets (fold (mergeWithEntry ord Other) Ks s) V = Some h"
  by (induction Ks arbitrary: s) (simp_all add: mergeWithEntry_keeps_bindings)

text \<open>
  Claim C1 asks that every element of a set of the other engine that meets a set of this
  engine is bound to the merged set afterwards. \<^verbatim>\<open>mergeWith\<close> inserts with
  \<^verbatim>\<open>unordered_map::insert\<close>, which leaves a key that is bound as it is: whatever the
  order of the iteration, a value bound in this engine keeps its handle. In the witness
  the other engine has the set \<open>{5, 6}\<close>; after the merge the set of 5 is
  \<open>{5, 6}\<close>, and 6 is still bound to its own set \<open>{6}\<close>.
\<close>

theorem mergeWith_never_rebinds:
  "PointsToSets s V = Some h \<Longrightarrow> PointsToSets (mergeWith ord Other s) V = Some h"
  by (simp add: mergeWith_def fold_mergeWithEntry_keeps_bindings)

lemma dom_mergedAllocas: "dom (PointsToSets mergedAllocas) = {5, 6}"
  by (auto simp: mergedAllocas_def split: if_splits)

lemma mergeWith_allocas_heap:
  "Heap (mergeWith ascending mergedAllocas separateAllocas) 0 = {5, 6}"
  "Heap (mergeWith ascending mergedAllocas separateAllocas) 1 = {6}"
  by (auto simp: mergeWith_def mergeWithEntry_def dom_mergedAllocas ascending_def Let_def
      mergedAllocas_def separateAllocas_def)

theorem mergeWith_never_rebinds_witness:
  "computeFunctionsPointsToSet (allocasIR NoAlias) (Some allocasMain) emptyEngine = Inr separateAllocas \<and>
   computeFunctionsPointsToSet (allocasIR MayAlias) (Some allocasMain) emptyEngine = Inr mergedAllocas \<and>
   PointsToSets mergedAllocas 5 = Some 0 \<and> Heap mergedAllocas 0 = {5, 6} \<and>
   PointsToSets separateAllocas 5 = Some 0 \<and> PointsToSets separateAllocas 6 = Some 1 \<and>
   PointsToSets (mergeWith ascending mergedAllocas separateAllocas) 5 = Some 0 \<and>
   PointsToSets (mergeWith ascending mergedAllocas separateAllocas) 6 = Some 1 \<and>
   Heap (mergeWith ascending mergedAllocas separateAllocas) 0 = {5, 6} \<and>
   Heap (mergeWith ascending mergedAllocas separateAllocas) 1 = {6}"
proof -
  have b: "PointsToSets separateAllocas 5 = Some 0" "PointsToSets separateAllocas 6 = Some 1"
    by (simp_all add: separateAllocas_def)
  show ?thesis
    using mergeWith_never_rebinds[OF b(1), of ascending mergedAllocas]
      mergeWith_never_rebinds[OF b(2), of ascending mergedAllocas]
      allocasIR_NoAlias allocasIR_MayAlias b mergeWith_allocas_heap
    by (simp add: mergedAllocas_def)
qed

section \<open>Stores, and the file\<close>

lemma exampleIR_analysis:
  "computeFunctionsPointsToSet exampleIR (Some exampleMain) emptyEngine = Inr exampleEngine"
  by (simp add: eval_defs exampleIR_def exampleMain_def exampleEngine_def fun_eq_iff) auto

text \<open>
  Claim C4 asks that no key of the map is an uninteresting value. The analysis of
  \<^verbatim>\<open>@main\<close> of \<open>nullStoreIR\<close> applies the store rule to
  \<^verbatim>\<open>store void()* @foo, void()** null\<close>: it seeds a singleton for the pointer
  operand without asking whether it is interesting, and the null pointer becomes a key,
  in one set with \<^verbatim>\<open>@foo\<close>.
\<close>

theorem store_to_null_binds_null:
  "\<not> isInterestingPointer nullStoreIR 0 \<and>
   computeFunctionsPointsToSet nullStoreIR (Some nullStoreMain) emptyEngine = Inr nullStoreEngine \<and>
   PointsToSets nullStoreEngine 0 = Some 1 \<and> Heap nullStoreEngine 1 = {0, 3}"
  by (simp add: eval_defs nullStoreIR_def nullStoreMain_def nullStoreEngine_def fun_eq_iff) auto

lemma traverse_exampleIR: "traverseIRDB exampleIR = [1, 2, 3, 4, 5, 6, 7, 8]"
  by (simp add: traverseIRDB_def exampleIR_def exampleMain_def exampleFoo_def)

lemma ids_exampleIR:
  "map (idOf (assignIds [1, 2, 3, 4, 5, 6, 7, 8])) [0, 1, 2, 3, 4, 5, 6, 7, 8, 9] =
     [0, 0, 1, 2, 3, 4, 5, 6, 7, 0]"
  by (simp add: assignIds_def idOf_def upt_rec)

lemma dom_exampleEngine: "dom (PointsToSets exampleEngine) = {1, 2, 3, 5, 6, 9}"
  by (auto simp: exampleEngine_def split: if_splits)

lemma save_exampleEngine:
  "save ascending exampleIR exampleEngine =
     \<lparr>AnalyzedFunctionsLines = [[3]], PointsToSetsLines = [[0], [1, 5, 0], [2, 4]]\<rparr>"
  using ids_exampleIR
  by (simp add: save_def traverse_exampleIR dom_exampleEngine ascending_def exampleEngine_def)

lemma isFunction_exampleIR: "isFunction exampleIR v = (v = 3 \<or> v = 4)"
  by (simp add: exampleIR_def)

lemma load_saved_exampleEngine:
  "load exampleIR \<lparr>AnalyzedFunctionsLines = [[3]], PointsToSetsLines = [[0], [1, 5, 0], [2, 4]]\<rparr>
     emptyEngine = Inr reloadedEngine"
  by (simp add: load_def traverse_exampleIR loadAnalyzedCell_def loadSetLine_def loadSetCell_def
      lookupId_def make_shared_def emptyEngine_def reloadedEngine_def isFunction_exampleIR
      fun_eq_iff)
    auto

text \<open>
  Claim C2 asks that saving and loading gives the same relation back. The engine
  \<open>exampleEngine\<close> holds the set \<open>{@g, bitcast, %slot2}\<close> (values 2, 9, 6). The
  traversal gives the constant expression no identifier, so the saver writes it as 0, the
  identifier of \<^verbatim>\<open>@h\<close>: the line of the set is \<open>1 5 0\<close>. After loading, the
  constant expression has no set, and \<^verbatim>\<open>@h\<close> (value 1) is a member of the set of
  \<^verbatim>\<open>@g\<close>.
\<close>

theorem save_load_changes_relation:
  "computeFunctionsPointsToSet exampleIR (Some exampleMain) emptyEngine = Inr exampleEngine \<and>
   PointsToSetsLines (save ascending exampleIR exampleEngine) = [[0], [1, 5, 0], [2, 4]] \<and>
   load exampleIR (save ascending exampleIR exampleEngine) emptyEngine = Inr reloadedEngine \<and>
   PointsToSets exampleEngine 2 = Some 4 \<and> Heap exampleEngine 4 = {2, 6, 9} \<and>
   PointsToSets exampleEngine 9 = Some 4 \<and>
   PointsToSets reloadedEngine 2 = Some 1 \<and> Heap reloadedEngine 1 = {1, 2, 6} \<and>
   PointsToSets reloadedEngine 9 = None"
  using exampleIR_analysis load_saved_exampleEngine
  by (simp add: save_exampleEngine) (simp add: exampleEngine_def reloadedEngine_def)

lemma foldE_Inr_all:
  "foldE f xs s = Inr s' \<Longrightarrow> x \<in> set xs \<Longrightarrow> \<exists>t t'. f x t = Inr t'"
  by (induction xs arbitrary: s) (auto split: sum.splits)

lemma lookupId_Inr: "lookupId tbl ID = Inr V \<Longrightarrow> ID < length tbl"
  by (simp add: lookupId_def split: if_splits)

lemma lookupId_error: "lookupId tbl ID = Inl e \<Longrightarrow> e = VectorIndexOutOfRange"
  by (simp add: lookupId_def split: if_splits)

lemma loadAnalyzedCell_Inr: "loadAnalyzedCell ir tbl ID s = Inr s' \<Longrightarrow> ID < length tbl"
  by (auto simp: loadAnalyzedCell_def andThen_Inr dest: lookupId_Inr)

lemma loadSetCell_Inr: "loadSetCell tbl h ID s = Inr s' \<Longrightarrow> ID < length tbl"
  by (auto simp: loadSetCell_def andThen_Inr dest: lookupId_Inr)

lemma loadAnalyzedCell_error:
  "loadAnalyzedCell ir tbl ID s = Inl e \<Longrightarrow> e = VectorIndexOutOfRange"
  by (cases "lookupId tbl ID") (auto simp: loadAnalyzedCell_def dest: lookupId_error)

lemma loadSetCell_error: "loadSetCell tbl h ID s = Inl e \<Longrightarrow> e = VectorIndexOutOfRange"
  by (cases "lookupId tbl ID") (auto simp: loadSetCell_def dest: lookupId_error)

lemma loadSetLine_Inr:
  assumes "loadSetLine tbl Line s = Inr s'" "ID \<in> set Line"
  shows "ID < length tbl"
proof -
  from assms(1) have "foldE (loadSetCell tbl (NextAddr s)) Line
      (s\<lparr>Heap := (Heap s)(NextAddr s := {}), NextAddr := Suc (NextAddr s)\<rparr>) = Inr s'"
    by (simp add: loadSetLine_def make_shared_def)
  from foldE_Inr_all[OF this assms(2)] show ?thesis by (auto dest: loadSetCell_Inr)
qed

lemma loadSetLine_error:
  assumes "loadSetLine tbl Line s = Inl e"
  shows "e = VectorIndexOutOfRange"
proof -
  from assms have "foldE (loadSetCell tbl (NextAddr s)) Line
      (s\<lparr>Heap := (Heap s)(NextAddr s := {}), NextAddr := Suc (NextAddr s)\<rparr>) = Inl e"
    by (simp add: loadSetLine_def make_shared_def)
  from foldE_error[OF this] show ?thesis by (auto dest: loadSetCell_error)
qed

text \<open>
  Claim C8 asks that an identifier out of the range of the table makes the load stop as
  on a corrupt file. The loader does not compare the identifier with the size of the
  vector: with such an identifier in the file it reads the vector out of range.
\<close>

theorem load_reads_out_of_range:
  assumes "ID \<in> set (concat (AnalyzedFunctionsLines file)) \<union> set (concat (PointsToSetsLines file))"
    and "length (traverseIRDB ir) \<le> ID"
  shows "load ir file s = Inl VectorIndexOutOfRange"
proof (cases "load ir file s")
  case (Inl e)
  have "e = VectorIndexOutOfRange"
  proof (cases "foldE (loadAnalyzedCell ir (traverseIRDB ir)) (concat (AnalyzedFunctionsLines file)) s")
    case a: (Inl e')
    with Inl have "e' = e" by (simp add: load_def Let_def)
    with foldE_error[OF a] show ?thesis by (auto dest: loadAnalyzedCell_error)
  next
    case (Inr s1)
    with Inl have "foldE (loadSetLine (traverseIRDB ir)) (PointsToSetsLines file) s1 = Inl e"
      by (simp add: load_def Let_def)
    from foldE_error[OF this] show ?thesis by (auto dest: loadSetLine_error)
  qed
  with Inl show ?thesis by simp
next
  case (Inr s')
  then obtain s1 where
    a: "foldE (loadAnalyzedCell ir (traverseIRDB ir)) (concat (AnalyzedFunctionsLines file)) s = Inr s1"
    and b: "foldE (loadSetLine (traverseIRDB ir)) (PointsToSetsLines file) s1 = Inr s'"
    by (auto simp: load_def Let_def andThen_Inr)
  from assms(1) have "ID < length (traverseIRDB ir)"
  proof
    assume "ID \<in> set (concat (AnalyzedFunctionsLines file))"
    from foldE_Inr_all[OF a this] show ?thesis by (auto dest: loadAnalyzedCell_Inr)
  next
    assume "ID \<in> set (concat (PointsToSetsLines file))"
    then obtain Line where l: "Line \<in> set (PointsToSetsLines file)" "ID \<in> set Line" by auto
    from foldE_Inr_all[OF b l(1)] l(2) show ?thesis by (auto dest: loadSetLine_Inr)
  qed
  with assms(2) show ?thesis by simp
qed

theorem load_reads_out_of_range_witness:
  "length (traverseIRDB exampleIR) = 8 \<and>
   load exampleIR \<lparr>AnalyzedFunctionsLines = [[3]], PointsToSetsLines = [[0], [1, 5, 8]]\<rparr> emptyEngine
     = Inl VectorIndexOutOfRange"
  using load_reads_out_of_range[of 8 "\<lparr>AnalyzedFunctionsLines = [[3]], PointsToSetsLines = [[0], [1, 5, 8]]\<rparr>"
      exampleIR emptyEngine]
  by (simp add: traverse_exampleIR)

theorem store_of_function_merges_witness:
  "invariants emptyEngine \<and> Some (fval exampleMain) \<notin> AnalyzedFunctions emptyEngine \<and>
   Instruction 7 (StoreInst 3 5) \<in> set (insts exampleMain) \<and>
   isPointerTy exampleIR 3 \<and> isFunction exampleIR 3 \<and>
   computeFunctionsPointsToSet exampleIR (Some exampleMain) emptyEngine = Inr exampleEngine \<and>
   PointsToSets exampleEngine 3 = Some 1 \<and> PointsToSets exampleEngine 5 = Some 1 \<and>
   Heap exampleEngine 1 = {3, 5}"
proof -
  have h: "Some (fval exampleMain) \<notin> AnalyzedFunctions emptyEngine"
    "Instruction 7 (StoreInst 3 5) \<in> set (insts exampleMain)"
    "ikind (Instruction 7 (StoreInst 3 5)) = StoreInst 3 5"
    "isPointerTy exampleIR 3" "isFunction exampleIR 3"
    by (simp_all add: emptyEngine_def exampleMain_def exampleIR_def)
  from store_of_function_merges[OF invariants_emptyEngine h] h invariants_emptyEngine
    exampleIR_analysis
  show ?thesis by (simp add: exampleEngine_def)
qed




section \<open>After a merge of two engines, and after a load\<close>

lemma mergeWith_allocas:
  "mergeWith ascending mergedAllocas separateAllocas = asymmetricAllocas"
  by (simp add: mergeWith_def mergeWithEntry_def dom_mergedAllocas ascending_def Let_def
      mergedAllocas_def separateAllocas_def asymmetricAllocas_def fun_eq_iff) auto












lemma merge_asymmetric: "mergePointsToSets 5 6 asymmetricAllocas = Inr asymmetricAllocas"
  by (simp add: mergePointsToSets_def asymmetricAllocas_def)

text \<open>
  The engine \<open>asymmetricAllocas\<close> is what \<^verbatim>\<open>mergeWith\<close> leaves. The values 5 and 6
  have sets and their handles are two objects, and \<^verbatim>\<open>mergePointsToSets\<close> on them
  changes nothing, because 6 is a member of the set of 5: the smaller set \<open>{6}\<close> is not
  emptied and 6 is not rebound.
\<close>

theorem merge_of_distinct_handles_counterexample:
  "mergeWith ascending mergedAllocas separateAllocas = asymmetricAllocas \<and>
   PointsToSets asymmetricAllocas 5 = Some 0 \<and> PointsToSets asymmetricAllocas 6 = Some 1 \<and>
   Heap asymmetricAllocas 0 = {5, 6} \<and> Heap asymmetricAllocas 1 = {6} \<and>
   mergePointsToSets 5 6 asymmetricAllocas = Inr asymmetricAllocas"
  using mergeWith_allocas merge_asymmetric by (simp add: asymmetricAllocas_def)


end
